theory Spec2Isabelle
  imports Main "HOL-Library.Word"
begin

unbundle bit_operations_syntax

section \<open>Clock divisor solver (host/bcm283x clock)\<close>

text \<open>
  The frequencies \<open>srcHz\<close> and \<open>desiredHz\<close> are \<open>uint64\<close> in the source. They are
  modelled as natural numbers; every \<open>uint64\<close> operation that can exceed 64 bits
  (the three multiplications and the subtraction in \<open>findDivisor\<close>) has its wrap-around
  \<open>mod 2 ^ 64\<close> written out.

  The divisor limits \<open>x\<close>, \<open>y\<close> and the loop counters are Go \<open>int\<close>s, 32 or 64 bits
  wide with the target: the functions take the width as their first argument. A counter
  is an integer within the range of the width; \<open>incr\<close> is \<open>i++\<close>, which wraps from
  the largest to the smallest value, and \<open>u64\<close> is the conversion \<open>uint64(i)\<close>, which
  extends the sign. A division by \<open>uint64(i)\<close> for \<open>i = 0\<close> is the run-time panic
  \<open>DivideByZero\<close>.
\<close>

datatype intSize = Int32 | Int64

fun maxInt :: "intSize \<Rightarrow> int" where
  "maxInt Int32 = 2 ^ 31 - 1"
| "maxInt Int64 = 2 ^ 63 - 1"

fun minInt :: "intSize \<Rightarrow> int" where
  "minInt Int32 = - (2 ^ 31)"
| "minInt Int64 = - (2 ^ 63)"

definition incr :: "intSize \<Rightarrow> int \<Rightarrow> int" where
  "incr sz i = (if i = maxInt sz then minInt sz else i + 1)"

definition u64 :: "int \<Rightarrow> nat" where
  "u64 i = nat (i mod 2 ^ 64)"

text \<open>
  The panics of the solver: the one \<open>findDivisorExact\<close> raises when \<open>x < y\<close>, and the
  integer division by zero.
\<close>

datatype fault = MustBeGE int int | DivideByZero

text \<open>
  A bound on the iterations a loop \<open>for ...; i <= x; i++\<close> has left when it divides
  by \<open>uint64(i)\<close> in its body: the counter runs up to \<open>x\<close>, or up to the largest
  \<open>int\<close>, wraps and runs up to 0, where the division panics. It serves the termination
  proofs only.
\<close>

definition stepsLeft :: "intSize \<Rightarrow> int \<Rightarrow> int \<Rightarrow> nat" where
  "stepsLeft sz x i =
     (if i > maxInt sz then nat (x + 1 - i)
      else if i > 0 then nat (maxInt sz - i) + nat (- minInt sz) + 3
      else nat (- i) + 1)"

text \<open>The inner loop of \<open>findDivisorExact\<close>: \<open>for i := j; i <= x; i++\<close>.\<close>

function scanX :: "intSize \<Rightarrow> nat \<Rightarrow> nat \<Rightarrow> int \<Rightarrow> int \<Rightarrow> fault + int option" where
  "scanX sz d desiredHz x i =
     (if i \<le> x then
        (if u64 i = 0 then Inl DivideByZero
         else if d mod u64 i = 0 \<and> d div u64 i = desiredHz then Inr (Some i)
         else scanX sz d desiredHz x (incr sz i))
      else Inr None)"
  by pat_completeness auto
termination
proof (relation "measure (\<lambda>(sz, d, desiredHz, x, i). stepsLeft sz x i)")
  fix sz :: intSize and d desiredHz :: nat and x i :: int
  assume "i \<le> x" and "u64 i \<noteq> 0"
  then have "i \<noteq> 0" by (auto simp: u64_def)
  with \<open>i \<le> x\<close> have "stepsLeft sz x (incr sz i) < stepsLeft sz x i"
    by (cases sz) (auto simp: stepsLeft_def incr_def)
  then show "((sz, d, desiredHz, x, incr sz i), (sz, d, desiredHz, x, i))
      \<in> measure (\<lambda>(sz, d, desiredHz, x, i). stepsLeft sz x i)" by simp
qed simp

text \<open>
  The outer loop of \<open>findDivisorExact\<close>: \<open>for j := 1; j <= y; j++\<close>, with its
  \<open>continue\<close>, its \<open>break\<close> (which leads to the final \<open>return 0, 0\<close>) and the
  \<open>return i, j\<close> from inside the inner loop.
\<close>

function scanY :: "intSize \<Rightarrow> nat \<Rightarrow> nat \<Rightarrow> int \<Rightarrow> int \<Rightarrow> int \<Rightarrow> fault + int \<times> int" where
  "scanY sz srcHz desiredHz x y j =
     (if j \<le> y then
        (if u64 j = 0 then Inl DivideByZero
         else if srcHz mod u64 j \<noteq> 0 then scanY sz srcHz desiredHz x y (incr sz j)
         else (let d = srcHz div u64 j in
           if d < desiredHz then Inr (0, 0)
           else (case scanX sz d desiredHz x j of
                   Inl f \<Rightarrow> Inl f
                 | Inr (Some i) \<Rightarrow> Inr (i, j)
                 | Inr None \<Rightarrow> scanY sz srcHz desiredHz x y (incr sz j))))
      else Inr (0, 0))"
  by pat_completeness auto
termination
proof (relation "measure (\<lambda>(sz, srcHz, desiredHz, x, y, j). stepsLeft sz y j)")
  fix sz :: intSize and srcHz desiredHz :: nat and x y j :: int
  assume "j \<le> y" and "u64 j \<noteq> 0"
  then have "j \<noteq> 0" by (auto simp: u64_def)
  with \<open>j \<le> y\<close> have less: "stepsLeft sz y (incr sz j) < stepsLeft sz y j"
    by (cases sz) (auto simp: stepsLeft_def incr_def)
  show "((sz, srcHz, desiredHz, x, y, incr sz j), (sz, srcHz, desiredHz, x, y, j))
      \<in> measure (\<lambda>(sz, srcHz, desiredHz, x, y, j). stepsLeft sz y j)"
    using less by simp
  show "((sz, srcHz, desiredHz, x, y, incr sz j), (sz, srcHz, desiredHz, x, y, j))
      \<in> measure (\<lambda>(sz, srcHz, desiredHz, x, y, j). stepsLeft sz y j)"
    using less by simp
qed simp

definition findDivisorExact ::
  "intSize \<Rightarrow> nat \<Rightarrow> nat \<Rightarrow> int \<Rightarrow> int \<Rightarrow> fault + int \<times> int" where
  "findDivisorExact sz srcHz desiredHz x y =
     (if x < y then Inl (MustBeGE x y) else scanY sz srcHz desiredHz x y 1)"

text \<open>
  The oversampling loop of \<open>findDivisor\<close>: \<open>for i := uint64(2); ; i++\<close>. It has no
  bound of its own, so it is a partial function: \<open>None\<close> is "does not return".
  \<open>Some (Inr None)\<close> is the \<open>break\<close>, \<open>Some (Inr (Some (m, n, d)))\<close> the
  \<open>return m, n, d, 0\<close>.
\<close>

partial_function (option) oversample ::
  "intSize \<Rightarrow> nat \<Rightarrow> nat \<Rightarrow> int \<Rightarrow> int \<Rightarrow> nat \<Rightarrow> (fault + (int \<times> int \<times> nat) option) option" where
  "oversample sz srcHz desiredHz x y i =
     (let d = (i * desiredHz) mod 2 ^ 64 in
      if d > 100000 \<and> i > 10 then Some (Inr None)
      else (case findDivisorExact sz srcHz d x y of
              Inl f \<Rightarrow> Some (Inl f)
            | Inr (m, n) \<Rightarrow>
                if m \<noteq> 0 then Some (Inr (Some (m, n, d)))
                else oversample sz srcHz desiredHz x y ((i + 1) mod 2 ^ 64)))"

text \<open>
  The error-minimising search of \<open>findDivisor\<close>. The state is
  \<open>(minErr, selected, m, n)\<close>. \<open>err\<close> is a \<open>uint64\<close>: the subtraction wraps, and the
  test \<open>err < 0\<close> of the source is kept as it is written. The inner loop divides by
  \<open>uint64(i)\<close> and by \<open>uint64(j)\<close>; the outer loop \<open>for i := 1; i <= x; i++\<close> divides
  by nothing itself, so for the largest \<open>x\<close> it may run forever: it is a partial
  function, \<open>None\<close> is "does not return".
\<close>

type_synonym best = "nat \<times> nat \<times> int \<times> int"

function fuzzyJ ::
  "intSize \<Rightarrow> nat \<Rightarrow> nat \<Rightarrow> int \<Rightarrow> int \<Rightarrow> int \<Rightarrow> best \<Rightarrow> fault + best" where
  "fuzzyJ sz srcHz desiredHz i maxY j st =
     (if j \<le> maxY then
        (if u64 i = 0 \<or> u64 j = 0 then Inl DivideByZero
         else
           (let actual = (srcHz div u64 i) div u64 j;
                err = (actual + 2 ^ 64 - desiredHz) mod 2 ^ 64;
                err = (if err < 0 then (2 ^ 64 - err) mod 2 ^ 64 else err)
            in fuzzyJ sz srcHz desiredHz i maxY (incr sz j)
                 (case st of (minErr, selected, m, n) \<Rightarrow>
                    if minErr > err then (err, actual, i, j) else st)))
      else Inr st)"
  by pat_completeness auto
termination
proof (relation "measure (\<lambda>(sz, srcHz, desiredHz, i, maxY, j, st). stepsLeft sz maxY j)")
  fix sz :: intSize and srcHz desiredHz :: nat and i maxY j :: int
    and st :: best and a b c :: nat
  assume "j \<le> maxY" and "\<not> (u64 i = 0 \<or> u64 j = 0)"
  then have "j \<noteq> 0" by (auto simp: u64_def)
  with \<open>j \<le> maxY\<close> have "stepsLeft sz maxY (incr sz j) < stepsLeft sz maxY j"
    by (cases sz) (auto simp: stepsLeft_def incr_def)
  then show "((sz, srcHz, desiredHz, i, maxY, incr sz j,
        case st of (minErr, selected, m, n) \<Rightarrow> if c < minErr then (c, a, i, j) else st),
      (sz, srcHz, desiredHz, i, maxY, j, st))
      \<in> measure (\<lambda>(sz, srcHz, desiredHz, i, maxY, j, st). stepsLeft sz maxY j)" by simp
qed simp

partial_function (option) fuzzyI ::
  "intSize \<Rightarrow> nat \<Rightarrow> nat \<Rightarrow> int \<Rightarrow> int \<Rightarrow> int \<Rightarrow> best \<Rightarrow> (fault + best) option" where
  "fuzzyI sz srcHz desiredHz x y i st =
     (if i \<le> x then
        (case fuzzyJ sz srcHz desiredHz i (if y > i then i else y) 1 st of
           Inl f \<Rightarrow> Some (Inl f)
         | Inr st' \<Rightarrow> fuzzyI sz srcHz desiredHz x y (incr sz i) st')
      else Some (Inr st))"

text \<open>
  \<open>findDivisor\<close> returns \<open>(x, y, actual frequency, error)\<close>; \<open>None\<close> when one of its
  loops does not return, \<open>Some (Inl f)\<close> when it panics.
\<close>

definition findDivisor ::
  "intSize \<Rightarrow> nat \<Rightarrow> nat \<Rightarrow> int \<Rightarrow> int \<Rightarrow> (fault + int \<times> int \<times> nat \<times> nat) option" where
  "findDivisor sz srcHz desiredHz x y =
     (case findDivisorExact sz srcHz desiredHz x y of
        Inl f \<Rightarrow> Some (Inl f)
      | Inr (m, n) \<Rightarrow>
          if m \<noteq> 0 then Some (Inr (m, n, desiredHz, 0))
          else (case oversample sz srcHz desiredHz x y 2 of
                  None \<Rightarrow> None
                | Some (Inl f) \<Rightarrow> Some (Inl f)
                | Some (Inr (Some (m, n, d))) \<Rightarrow> Some (Inr (m, n, d, 0))
                | Some (Inr None) \<Rightarrow>
                    (let desiredHz' = (desiredHz * 200) mod 2 ^ 64;
                         srcHz' = (srcHz * 100) mod 2 ^ 64
                     in case fuzzyI sz srcHz' desiredHz' x y 1 (0xFFFFFFFFFFFFFFF, 0, 0, 0) of
                          None \<Rightarrow> None
                        | Some (Inl f) \<Rightarrow> Some (Inl f)
                        | Some (Inr (minErr, selected, m, n)) \<Rightarrow>
                            Some (Inr (m, n, selected div 100, minErr div 100)))))"

text \<open>
  The error that \<open>findDivisor\<close> computes for the pair \<open>(i, j)\<close> in its last search, as an
  expression of its own: the loop above computes it inline.
\<close>

definition errAt :: "nat \<Rightarrow> nat \<Rightarrow> int \<Rightarrow> int \<Rightarrow> nat" where
  "errAt srcHz desiredHz i j = ((srcHz div nat i) div nat j + 2 ^ 64 - desiredHz) mod 2 ^ 64"

text \<open>
  An exact divider pair of the specification: \<open>i\<close> in \<open>[1, x]\<close>, \<open>j\<close> in \<open>[1, y]\<close>,
  \<open>i \<ge> j\<close>, and \<open>srcHz / (i * j)\<close> is \<open>desiredHz\<close> without remainder.
\<close>

definition exactPair :: "nat \<Rightarrow> nat \<Rightarrow> int \<Rightarrow> int \<Rightarrow> int \<Rightarrow> int \<Rightarrow> bool" where
  "exactPair srcHz desiredHz x y i j \<longleftrightarrow>
     1 \<le> j \<and> j \<le> y \<and> j \<le> i \<and> i \<le> x \<and> srcHz = desiredHz * (nat i * nat j)"

section \<open>Streams (conn/gpio/stream)\<close>

text \<open>
  \<open>time.Duration\<close> is an \<open>int64\<close> count of nanoseconds: an integer, with the
  wrap-around of every sum and product written out by \<open>wrap64\<close>. \<open>gpio.Bits\<close> is a
  byte slice. The three stream types of package \<open>stream\<close> are the first three
  constructors, each with the fields of its struct in the order of the source
  (\<open>Bits {Bits, Res}\<close>, \<open>Edges {Edges, Res}\<close>, \<open>Program {Parts, Res, Loops}\<close>);
  \<open>Foreign\<close> stands for any other implementation of the interface \<open>gpio.Stream\<close>,
  given by what its \<open>Resolution()\<close> and \<open>Duration()\<close> return.
\<close>

definition wrap64 :: "int \<Rightarrow> int" where
  "wrap64 v = (v + 2 ^ 63) mod 2 ^ 64 - 2 ^ 63"

datatype Stream =
    Bits "8 word list" int
  | Edges "int list" int
  | Program "Stream list" int int
  | Foreign int int

fun Resolution :: "Stream \<Rightarrow> int" where
  "Resolution (Bits bs res) = res"
| "Resolution (Edges es res) = res"
| "Resolution (Program ps res loops) = res"
| "Resolution (Foreign res dur) = res"

fun Duration :: "Stream \<Rightarrow> int" where
  "Duration (Bits bs res) = wrap64 (res * int (length bs))"
| "Duration (Edges es res) = foldl (\<lambda>t edge. wrap64 (t + edge)) 0 es"
| "Duration (Program ps res loops) =
     (let d = foldl (\<lambda>d s. wrap64 (d + s)) 0 (map Duration ps)
      in if loops > 1 then wrap64 (d * loops) else d)"
| "Duration (Foreign res dur) = dur"

text \<open>
  The buffers are Go slices, which may share storage. The memory of \<open>uint32\<close> cells
  is a function from addresses (counted in cells) to values; a slice is the address of
  its first element and its length. \<open>addr s k\<close> is the address of \<open>s[k]\<close>, and
  \<open>cells mem s\<close> reads the slice back.
\<close>

type_synonym memory = "nat \<Rightarrow> 32 word"

datatype slice = Slice nat nat

fun slen :: "slice \<Rightarrow> nat" where
  "slen (Slice p n) = n"

fun addr :: "slice \<Rightarrow> nat \<Rightarrow> nat" where
  "addr (Slice p n) k = p + k"

definition cells :: "memory \<Rightarrow> slice \<Rightarrow> 32 word list" where
  "cells mem s = map (\<lambda>k. mem (addr s k)) [0..<slen s]"

text \<open>Two slices that share no cell.\<close>

fun separate :: "slice \<Rightarrow> slice \<Rightarrow> bool" where
  "separate (Slice p n) (Slice q m) \<longleftrightarrow> p + n \<le> q \<or> q + m \<le> p"

text \<open>
  The outcome of a rasterisation: the returned error (\<open>Ok\<close> is \<open>nil\<close>), or the
  run-time panic of an index out of range, together with the memory as the call
  leaves it.
\<close>

datatype outcome = Ok | Error string | IndexOutOfRange

type_synonym raster = "outcome \<times> memory"

text \<open>\<open>Bits.raster32\<close>: the loop over \<open>j\<close> for one byte, and the loop over the bytes.\<close>

function bitsLoopJ ::
  "8 word \<Rightarrow> nat \<Rightarrow> nat \<Rightarrow> slice \<Rightarrow> slice \<Rightarrow> 32 word \<Rightarrow> 32 word \<Rightarrow> memory \<Rightarrow> raster" where
  "bitsLoopJ byte i j clear set' setMask clearMask mem =
     (if j < 8 then
        (if byte AND push_bit j 1 \<noteq> 0 then
           (if 8 * i + j < slen set' then
              bitsLoopJ byte i (j + 1) clear set' setMask clearMask
                (mem(addr set' (8 * i + j) := mem (addr set' (8 * i + j)) OR setMask))
            else (IndexOutOfRange, mem))
         else
           (if 8 * i + j < slen clear then
              bitsLoopJ byte i (j + 1) clear set' setMask clearMask
                (mem(addr clear (8 * i + j) := mem (addr clear (8 * i + j)) OR clearMask))
            else (IndexOutOfRange, mem)))
      else (Ok, mem))"
  by pat_completeness auto
termination
  by (relation "measure (\<lambda>(byte, i, j, clear, set', setMask, clearMask, mem). 8 - j)") auto

function bitsLoopI ::
  "8 word list \<Rightarrow> nat \<Rightarrow> nat \<Rightarrow> slice \<Rightarrow> slice \<Rightarrow> 32 word \<Rightarrow> 32 word \<Rightarrow> memory \<Rightarrow> raster" where
  "bitsLoopI bs m i clear set' setMask clearMask mem =
     (if i < m then
        (if i < length bs then
           (case bitsLoopJ (bs ! i) i 0 clear set' setMask clearMask mem of
              (Ok, mem') \<Rightarrow> bitsLoopI bs m (i + 1) clear set' setMask clearMask mem'
            | r \<Rightarrow> r)
         else (IndexOutOfRange, mem))
      else (Ok, mem))"
  by pat_completeness auto
termination
  by (relation "measure (\<lambda>(bs, m, i, clear, set', setMask, clearMask, mem). m - i)") auto

definition Bits_raster32 ::
  "8 word list \<Rightarrow> int \<Rightarrow> int \<Rightarrow> slice \<Rightarrow> slice \<Rightarrow> 32 word \<Rightarrow> 32 word \<Rightarrow> memory \<Rightarrow> raster" where
  "Bits_raster32 bs res resolution clear set' setMask clearMask mem =
     (if resolution \<noteq> res then (Error ''TODO: implement resolution matching'', mem)
      else if Duration (Bits bs res) > wrap64 (resolution * int (slen clear))
        then (Error ''buffer is too short'', mem)
      else (let m = slen clear div 8;
                m = (if length bs < m then length bs else m)
            in bitsLoopI bs m 0 clear set' setMask clearMask mem))"

text \<open>
  \<open>Edges.raster32\<close>: the level \<open>l\<close> starts as \<open>gpio.High\<close> (\<open>True\<close>) and the loop
  \<open>for i := range clear\<close> never assigns it; the edge list is read by the duration
  check only.
\<close>

function edgesLoop ::
  "bool \<Rightarrow> nat \<Rightarrow> slice \<Rightarrow> slice \<Rightarrow> 32 word \<Rightarrow> 32 word \<Rightarrow> memory \<Rightarrow> raster" where
  "edgesLoop l i clear set' setMask clearMask mem =
     (if i < slen clear then
        (if l then
           (if i < slen set' then
              edgesLoop l (i + 1) clear set' setMask clearMask
                (mem(addr set' i := mem (addr set' i) OR setMask))
            else (IndexOutOfRange, mem))
         else edgesLoop l (i + 1) clear set' setMask clearMask
                (mem(addr clear i := mem (addr clear i) OR clearMask)))
      else (Ok, mem))"
  by pat_completeness auto
termination
  by (relation "measure (\<lambda>(l, i, clear, set', setMask, clearMask, mem). slen clear - i)") auto

definition Edges_raster32 ::
  "int list \<Rightarrow> int \<Rightarrow> int \<Rightarrow> slice \<Rightarrow> slice \<Rightarrow> 32 word \<Rightarrow> 32 word \<Rightarrow> memory \<Rightarrow> raster" where
  "Edges_raster32 es res resolution clear set' setMask clearMask mem =
     (if resolution < res then (Error ''resolution is too coarse'', mem)
      else if Duration (Edges es res) > wrap64 (resolution * int (slen clear))
        then (Error ''buffer is too short'', mem)
      else edgesLoop True 0 clear set' setMask clearMask mem)"

definition Program_raster32 ::
  "Stream list \<Rightarrow> int \<Rightarrow> int \<Rightarrow> int \<Rightarrow> slice \<Rightarrow> slice \<Rightarrow> 32 word \<Rightarrow> 32 word \<Rightarrow> memory
     \<Rightarrow> raster" where
  "Program_raster32 ps res loops resolution clear set' setMask clearMask mem =
     (Error ''implement me'', mem)"

definition Raster32 ::
  "Stream \<Rightarrow> int \<Rightarrow> slice \<Rightarrow> slice \<Rightarrow> 32 word \<Rightarrow> 32 word \<Rightarrow> memory \<Rightarrow> raster" where
  "Raster32 s resolution clear set' setMask clearMask mem =
     (if setMask = 0 then (Error ''setMask is 0'', mem)
      else if clearMask = 0 then (Error ''clearMask is 0'', mem)
      else if slen clear = 0 then (Error ''clear buffer is empty'', mem)
      else if slen set' = 0 then (Error ''set buffer is empty'', mem)
      else if slen clear \<noteq> slen set'
        then (Error ''clear and set buffers have different length'', mem)
      else (case s of
              Bits bs res \<Rightarrow> Bits_raster32 bs res resolution clear set' setMask clearMask mem
            | Edges es res \<Rightarrow> Edges_raster32 es res resolution clear set' setMask clearMask mem
            | Program ps res loops \<Rightarrow>
                Program_raster32 ps res loops resolution clear set' setMask clearMask mem
            | Foreign res dur \<Rightarrow> (Error ''stream: unknown type'', mem)))"

text \<open>
  Bit \<open>k\<close> of a \<open>gpio.Bits\<close> stream: bit 0 of a byte is sent first
  (least-significant bit first within each byte).
\<close>

definition streamBit :: "8 word list \<Rightarrow> nat \<Rightarrow> bool" where
  "streamBit bs k = bit (bs ! (k div 8)) (k mod 8)"

text \<open>
  What the writes of a raster loop add to the cell at address \<open>a\<close>: the mask \<open>m\<close> when
  \<open>a\<close> is the cell of a slot \<open>k\<close> in \<open>[lo, hi)\<close> of the slice with \<open>P k\<close>, and nothing
  otherwise. It states the loops' effect and is not part of the source.
\<close>

definition part :: "slice \<Rightarrow> (nat \<Rightarrow> bool) \<Rightarrow> nat \<Rightarrow> nat \<Rightarrow> 32 word \<Rightarrow> nat \<Rightarrow> 32 word" where
  "part s P lo hi m a = (if \<exists>k \<in> {lo..<hi}. a = addr s k \<and> P k then m else 0)"

section \<open>NRZ encoder (devices/sk6812rgbw)\<close>

definition expandNRZ :: "8 word \<Rightarrow> 32 word" where
  "expandNRZ b =
     (let out = (0x924924 :: 32 word);
          out = out OR push_bit (3 * 7 + 1 - 7) (ucast (b AND 0x80));
          out = out OR push_bit (3 * 6 + 1 - 6) (ucast (b AND 0x40));
          out = out OR push_bit (3 * 5 + 1 - 5) (ucast (b AND 0x20));
          out = out OR push_bit (3 * 4 + 1 - 4) (ucast (b AND 0x10));
          out = out OR push_bit (3 * 3 + 1 - 3) (ucast (b AND 0x08));
          out = out OR push_bit (3 * 2 + 1 - 2) (ucast (b AND 0x04));
          out = out OR push_bit (3 * 1 + 1 - 1) (ucast (b AND 0x02));
          out = out OR push_bit (3 * 0 + 1 - 0) (ucast (b AND 0x01))
      in out)"

declare scanX.simps [simp del] scanY.simps [simp del] fuzzyJ.simps [simp del]
  bitsLoopJ.simps [simp del] bitsLoopI.simps [simp del] edgesLoop.simps [simp del]

section \<open>Counters that do not wrap\<close>

lemma maxInt_ge: "2 ^ 31 - 1 \<le> maxInt sz"
  by (cases sz) simp_all

lemma maxInt_le: "maxInt sz \<le> 2 ^ 63 - 1"
  by (cases sz) simp_all

lemma incr_below: "i < maxInt sz \<Longrightarrow> incr sz i = i + 1"
  by (simp add: incr_def)

lemma u64_nat: "0 \<le> i \<Longrightarrow> i \<le> maxInt sz \<Longrightarrow> u64 i = nat i"
  using maxInt_le [of sz] by (simp add: u64_def)

lemma hit_iff: "0 < k \<Longrightarrow> (d mod k = 0 \<and> d div k = D) \<longleftrightarrow> d = D * (k::nat)"
  by auto

section \<open>The exact search\<close>

lemma scanX_step:
  assumes "1 \<le> i" and "i \<le> x" and "x < maxInt sz"
  shows "scanX sz d D x i =
     (if d mod nat i = 0 \<and> d div nat i = D then Inr (Some i) else scanX sz d D x (i + 1))"
proof -
  have u: "u64 i = nat i" using assms by (intro u64_nat [where sz = sz]) simp_all
  have n: "nat i \<noteq> 0" using assms by simp
  have s: "incr sz i = i + 1" using assms by (intro incr_below) simp
  show ?thesis using assms(2) n by (subst scanX.simps) (simp add: u s)
qed

lemma scanX_done: "\<not> i \<le> x \<Longrightarrow> scanX sz d D x i = Inr None"
  by (subst scanX.simps) simp

lemma scanX_cases:
  assumes "1 \<le> i0" and "x < maxInt sz"
  shows "(\<exists>i. scanX sz d D x i0 = Inr (Some i) \<and> i0 \<le> i \<and> i \<le> x \<and> d = D * nat i) \<or>
     (scanX sz d D x i0 = Inr None \<and> (\<forall>k. i0 \<le> k \<and> k \<le> x \<longrightarrow> d \<noteq> D * nat k))"
  using assms
proof (induction "nat (x + 1 - i0)" arbitrary: i0)
  case 0
  then have gt: "\<not> i0 \<le> x" by simp
  then have "scanX sz d D x i0 = Inr None" by (rule scanX_done)
  moreover have "\<forall>k. i0 \<le> k \<and> k \<le> x \<longrightarrow> d \<noteq> D * nat k" using gt by auto
  ultimately show ?case by blast
next
  case (Suc c)
  then have le: "i0 \<le> x" and c: "c = nat (x + 1 - (i0 + 1))" and i1: "1 \<le> i0 + 1"
    by simp_all
  have pos: "0 < nat i0" using Suc.prems by simp
  note step = scanX_step [OF Suc.prems(1) le Suc.prems(2), where d = d and D = D]
  show ?case
  proof (cases "d mod nat i0 = 0 \<and> d div nat i0 = D")
    case True
    then have "d = D * nat i0" by (simp only: hit_iff [OF pos, of d D])
    moreover have "scanX sz d D x i0 = Inr (Some i0)"
      by (subst step) (use True in simp)
    moreover have "i0 \<le> i0" by simp
    ultimately show ?thesis using le by blast
  next
    case False
    then have ne: "d \<noteq> D * nat i0" by (simp add: hit_iff [OF pos, of d D])
    have eq: "scanX sz d D x i0 = scanX sz d D x (i0 + 1)"
      by (subst step) (use False in auto)
    from Suc.hyps(1) [OF c i1 Suc.prems(2)] show ?thesis
    proof
      assume "\<exists>i. scanX sz d D x (i0 + 1) = Inr (Some i) \<and> i0 + 1 \<le> i \<and> i \<le> x \<and> d = D * nat i"
      then obtain i where i: "scanX sz d D x (i0 + 1) = Inr (Some i)" "i0 + 1 \<le> i" "i \<le> x"
        "d = D * nat i" by blast
      have "scanX sz d D x i0 = Inr (Some i)" using eq i(1) by (rule trans)
      moreover have "i0 \<le> i" using i(2) by linarith
      ultimately show ?thesis using i(3,4) by blast
    next
      assume r: "scanX sz d D x (i0 + 1) = Inr None \<and>
        (\<forall>k. i0 + 1 \<le> k \<and> k \<le> x \<longrightarrow> d \<noteq> D * nat k)"
      have "d \<noteq> D * nat k" if "i0 \<le> k" "k \<le> x" for k
      proof (cases "k = i0")
        case True
        with ne show ?thesis by simp
      next
        case False
        with that have "i0 + 1 \<le> k" by linarith
        with r that show ?thesis by blast
      qed
      moreover have "scanX sz d D x i0 = Inr None" using eq r by (simp only:)
      ultimately show ?thesis by blast
    qed
  qed
qed

lemma scanX_Some:
  assumes "1 \<le> i0" and "x < maxInt sz" and "scanX sz d D x i0 = Inr (Some i)"
  shows "i0 \<le> i \<and> i \<le> x \<and> d = D * nat i"
  using scanX_cases [OF assms(1,2), of d D] assms(3) by auto

lemma scanX_None:
  assumes "1 \<le> i0" and "x < maxInt sz" and "scanX sz d D x i0 = Inr None"
    and "i0 \<le> k" and "k \<le> x"
  shows "d \<noteq> D * nat k"
  using scanX_cases [OF assms(1,2), of d D] assms(3,4,5) by auto

lemma scanX_result:
  assumes "1 \<le> i0" and "x < maxInt sz"
  shows "\<exists>r. scanX sz d D x i0 = Inr r"
  using scanX_cases [OF assms, of d D] by auto

lemma scanY_step:
  assumes "1 \<le> j" and "j \<le> y" and "y < maxInt sz"
  shows "scanY sz S D x y j =
     (if S mod nat j \<noteq> 0 then scanY sz S D x y (j + 1)
      else if S div nat j < D then Inr (0, 0)
      else (case scanX sz (S div nat j) D x j of
              Inl f \<Rightarrow> Inl f
            | Inr (Some i) \<Rightarrow> Inr (i, j)
            | Inr None \<Rightarrow> scanY sz S D x y (j + 1)))"
proof -
  have u: "u64 j = nat j" using assms by (intro u64_nat [where sz = sz]) simp_all
  have n: "nat j \<noteq> 0" using assms by simp
  have s: "incr sz j = j + 1" using assms by (intro incr_below) simp
  show ?thesis using assms(2) n unfolding s [symmetric]
    by (subst scanY.simps) (simp add: u Let_def)
qed

lemma scanY_done: "\<not> j \<le> y \<Longrightarrow> scanY sz S D x y j = Inr (0, 0)"
  by (subst scanY.simps) simp

text \<open>
  Below the largest \<open>int\<close> the search returns: a pair with the smallest \<open>j\<close> that has
  an exact \<open>i\<close>, or \<open>(0, 0)\<close>.
\<close>

lemma scanY_cases:
  assumes "1 \<le> j0" and "x < maxInt sz" and "y < maxInt sz"
  shows "(\<exists>m n. scanY sz S D x y j0 = Inr (m, n) \<and> m \<noteq> 0 \<and>
            j0 \<le> n \<and> n \<le> y \<and> n \<le> m \<and> m \<le> x \<and> S = D * (nat m * nat n) \<and>
            (\<forall>i j. j0 \<le> j \<and> j < n \<and> j \<le> i \<and> i \<le> x \<longrightarrow> S \<noteq> D * (nat i * nat j))) \<or>
         scanY sz S D x y j0 = Inr (0, 0)"
  using assms
proof (induction "nat (y + 1 - j0)" arbitrary: j0)
  case 0
  then have "\<not> j0 \<le> y" by simp
  then show ?case by (simp add: scanY_done)
next
  case (Suc c)
  then have le: "j0 \<le> y" and c: "c = nat (y + 1 - (j0 + 1))" and j1: "1 \<le> j0 + 1"
    by simp_all
  have pos: "0 < nat j0" using Suc.prems by simp
  note step = scanY_step [OF Suc.prems(1) le Suc.prems(3), where S = S and D = D and x = x]
  note IH = Suc.hyps(1) [OF c j1 Suc.prems(2,3)]
  have rec: ?case
    if eq: "scanY sz S D x y j0 = scanY sz S D x y (j0 + 1)"
      and nohit: "\<And>i. j0 \<le> i \<Longrightarrow> i \<le> x \<Longrightarrow> S \<noteq> D * (nat i * nat j0)"
  proof -
    from IH show ?thesis
    proof
      assume "\<exists>m n. scanY sz S D x y (j0 + 1) = Inr (m, n) \<and> m \<noteq> 0 \<and>
            j0 + 1 \<le> n \<and> n \<le> y \<and> n \<le> m \<and> m \<le> x \<and> S = D * (nat m * nat n) \<and>
            (\<forall>i j. j0 + 1 \<le> j \<and> j < n \<and> j \<le> i \<and> i \<le> x \<longrightarrow> S \<noteq> D * (nat i * nat j))"
      then obtain m n where r: "scanY sz S D x y (j0 + 1) = Inr (m, n)" "m \<noteq> 0"
        "j0 + 1 \<le> n" "n \<le> y" "n \<le> m" "m \<le> x" and Seq: "S = D * (nat m * nat n)"
        and mn: "\<And>i j. j0 + 1 \<le> j \<Longrightarrow> j < n \<Longrightarrow> j \<le> i \<Longrightarrow> i \<le> x \<Longrightarrow> S \<noteq> D * (nat i * nat j)"
        by blast
      have "S \<noteq> D * (nat i * nat j)" if "j0 \<le> j" "j < n" "j \<le> i" "i \<le> x" for i j
      proof (cases "j = j0")
        case True
        with that nohit [of i] show ?thesis by simp
      next
        case False
        with that have "j0 + 1 \<le> j" by simp
        then show ?thesis using that by (intro mn)
      qed
      moreover have "j0 \<le> n" using r(3) by simp
      moreover have "scanY sz S D x y j0 = Inr (m, n)" using eq r(1) by simp
      ultimately show ?thesis using r(2,4,5,6) Seq by blast
    next
      assume "scanY sz S D x y (j0 + 1) = Inr (0, 0)"
      with eq show ?thesis by simp
    qed
  qed
  show ?case
  proof (cases "S mod nat j0 \<noteq> 0")
    case True
    have "scanY sz S D x y j0 = scanY sz S D x y (j0 + 1)" using True by (simp add: step)
    moreover have "S \<noteq> D * (nat i * nat j0)" for i using True by auto
    ultimately show ?thesis by (rule rec)
  next
    case False
    then have div0: "S mod nat j0 = 0" by simp
    then have Seq: "S = (S div nat j0) * nat j0" by auto
    show ?thesis
    proof (cases "S div nat j0 < D")
      case True
      with div0 show ?thesis by (simp add: step)
    next
      case ge: False
      from scanX_result [OF Suc.prems(1,2), where d = "S div nat j0" and D = D]
      obtain r where r: "scanX sz (S div nat j0) D x j0 = Inr r" by blast
      show ?thesis
      proof (cases r)
        case None
        with r have none: "scanX sz (S div nat j0) D x j0 = Inr None" by simp
        have "scanY sz S D x y j0 = scanY sz S D x y (j0 + 1)"
          using div0 ge none by (simp add: step)
        moreover have "S \<noteq> D * (nat i * nat j0)" if "j0 \<le> i" "i \<le> x" for i
        proof
          assume "S = D * (nat i * nat j0)"
          then have "S div nat j0 = D * nat i" using pos by (simp add: mult.assoc [symmetric])
          with scanX_None [OF Suc.prems(1,2) none that] show False by simp
        qed
        ultimately show ?thesis by (rule rec)
      next
        case (Some i)
        with r have some: "scanX sz (S div nat j0) D x j0 = Inr (Some i)" by simp
        have eq: "scanY sz S D x y j0 = Inr (i, j0)" using div0 ge some by (simp add: step)
        from scanX_Some [OF Suc.prems(1,2) some]
        have i: "j0 \<le> i" "i \<le> x" "S div nat j0 = D * nat i" by simp_all
        from Seq i(3) have "S = D * (nat i * nat j0)" by (metis mult.assoc)
        moreover have "i \<noteq> 0" using i(1) Suc.prems(1) by simp
        ultimately show ?thesis using eq i(1,2) le by auto
      qed
    qed
  qed
qed

lemma scanY_complete:
  assumes "1 \<le> j0" and "x < maxInt sz" and "y < maxInt sz"
    and "j0 \<le> j" and "j \<le> y" and "j \<le> i" and "i \<le> x" and "S = D * (nat i * nat j)"
  shows "scanY sz S D x y j0 \<noteq> Inr (0, 0)"
  using assms(1,4)
proof (induction "nat (j - j0)" arbitrary: j0)
  case 0
  then have j0: "j0 = j" by simp
  have one: "1 \<le> j" using "0.prems" by simp
  have jpos: "0 < nat j" and ipos: "0 < nat i" using one assms(6) by simp_all
  note step = scanY_step [OF one assms(5,3), where S = S and D = D and x = x]
  have Sj: "S div nat j = D * nat i"
    using assms(8) jpos by (simp add: mult.assoc [symmetric])
  have m0: "S mod nat j = 0" using assms(8) by simp
  have "D * 1 \<le> D * nat i" using ipos by (intro mult_le_mono2) simp
  then have "D \<le> D * nat i" by (simp only: mult_1_right)
  then have ge: "\<not> S div nat j < D" using Sj by linarith
  from scanX_cases [OF one assms(2), of "S div nat j" D]
  obtain i' where "scanX sz (S div nat j) D x j = Inr (Some i')" and "j \<le> i'"
    using Sj assms(6,7) by blast
  then have "scanY sz S D x y j = Inr (i', j)" using m0 ge by (simp add: step)
  then show ?case using one j0 by simp
next
  case (Suc c)
  then have lt: "j0 < j" and c: "c = nat (j - (j0 + 1))" and j1: "1 \<le> j0 + 1"
    and j1': "j0 + 1 \<le> j" by simp_all
  have le: "j0 \<le> y" using lt assms(5) by simp
  note step = scanY_step [OF Suc.prems(1) le assms(3), where S = S and D = D and x = x]
  note IH = Suc.hyps(1) [OF c j1 j1']
  have j0pos: "0 < nat j0" and jpos: "0 < nat j" and ipos: "0 < nat i"
    using Suc.prems(1) lt assms(6) by simp_all
  show ?case
  proof (cases "S mod nat j0 \<noteq> 0")
    case True
    then have "scanY sz S D x y j0 = scanY sz S D x y (j0 + 1)" by (simp add: step)
    with IH show ?thesis by simp
  next
    case False
    have Sj: "S div nat j = D * nat i"
      using assms(8) jpos by (simp add: mult.assoc [symmetric])
    have "D * nat i \<le> S div nat j0"
      using div_le_mono2 [of "nat j0" "nat j" S] j0pos lt Sj by simp
    moreover have "D * 1 \<le> D * nat i" using ipos by (intro mult_le_mono2) simp
    then have "D \<le> D * nat i" by (simp only: mult_1_right)
    ultimately have ge: "\<not> S div nat j0 < D" by linarith
    from scanX_result [OF Suc.prems(1) assms(2), where d = "S div nat j0" and D = D]
    obtain r where r: "scanX sz (S div nat j0) D x j0 = Inr r" by blast
    show ?thesis
    proof (cases r)
      case None
      then have "scanY sz S D x y j0 = scanY sz S D x y (j0 + 1)"
        using False ge r by (simp add: step)
      with IH show ?thesis by simp
    next
      case (Some i')
      with r have some: "scanX sz (S div nat j0) D x j0 = Inr (Some i')" by simp
      then have "scanY sz S D x y j0 = Inr (i', j0)" using False ge by (simp add: step)
      then show ?thesis using Suc.prems(1) by simp
    qed
  qed
qed

lemma scanY_none:
  assumes "1 \<le> j0" and "x < maxInt sz" and "y < maxInt sz"
    and "\<And>i j. j0 \<le> j \<Longrightarrow> j \<le> y \<Longrightarrow> j \<le> i \<Longrightarrow> i \<le> x \<Longrightarrow> S \<noteq> D * (nat i * nat j)"
  shows "scanY sz S D x y j0 = Inr (0, 0)"
  using scanY_cases [OF assms(1,2,3), of S D] assms(4) by blast

text \<open>
  Claim C1, as amended: for \<open>x\<close> below the largest \<open>int\<close>, whenever some pair \<open>(i, j)\<close>
  with \<open>1 \<le> j \<le> y\<close>, \<open>j \<le> i \<le> x\<close> divides \<open>srcHz\<close> to \<open>desiredHz\<close> exactly,
  \<open>findDivisor\<close> returns an exact pair in range, with \<open>desiredHz\<close> as the frequency and
  0 as the error, and no exact pair in range has a larger first divisor.
\<close>

theorem findDivisor_exact_largest_x:
  assumes "1 \<le> desiredHz" and "1 \<le> y" and "y \<le> x" and "x < maxInt sz"
    and "exactPair srcHz desiredHz x y i j"
  shows "\<exists>m n. findDivisor sz srcHz desiredHz x y = Some (Inr (m, n, desiredHz, 0)) \<and>
           exactPair srcHz desiredHz x y m n \<and>
           (\<forall>i' j'. exactPair srcHz desiredHz x y i' j' \<longrightarrow> i' \<le> m)"
proof -
  have one: "(1 :: int) \<le> 1" by simp
  have ylt: "y < maxInt sz" using assms(3,4) by simp
  from assms(5) have ex: "1 \<le> j" "j \<le> y" "j \<le> i" "i \<le> x" "srcHz = desiredHz * (nat i * nat j)"
    by (simp_all add: exactPair_def)
  have "scanY sz srcHz desiredHz x y 1 \<noteq> Inr (0, 0)"
    by (rule scanY_complete [OF one assms(4) ylt ex])
  with scanY_cases [OF one assms(4) ylt, of srcHz desiredHz]
  obtain m n where mn: "scanY sz srcHz desiredHz x y 1 = Inr (m, n)" and m0: "m \<noteq> 0"
    and r: "1 \<le> n" "n \<le> y" "n \<le> m" "m \<le> x"
    and eq: "srcHz = desiredHz * (nat m * nat n)"
    and least: "\<And>i j. 1 \<le> j \<Longrightarrow> j < n \<Longrightarrow> j \<le> i \<Longrightarrow> i \<le> x
        \<Longrightarrow> srcHz \<noteq> desiredHz * (nat i * nat j)"
    by blast
  have res: "findDivisor sz srcHz desiredHz x y = Some (Inr (m, n, desiredHz, 0))"
    using assms(3) mn m0 by (simp add: findDivisor_def findDivisorExact_def)
  have pair: "exactPair srcHz desiredHz x y m n"
    using r eq by (simp add: exactPair_def)
  have "i' \<le> m" if "exactPair srcHz desiredHz x y i' j'" for i' j'
  proof (rule ccontr)
    assume "\<not> i' \<le> m"
    then have lt: "m < i'" by simp
    from that have e': "1 \<le> j'" "j' \<le> y" "j' \<le> i'" "i' \<le> x"
      "srcHz = desiredHz * (nat i' * nat j')" by (simp_all add: exactPair_def)
    have "\<not> j' < n" using least [of j' i'] e' by blast
    then have nj: "nat n \<le> nat j'" by simp
    have "nat m < nat i'" "0 < nat n" using r lt by simp_all
    then have "nat m * nat n < nat i' * nat j'"
      using nj by (meson mult_less_le_imp_less zero_le)
    moreover have "desiredHz * (nat m * nat n) = desiredHz * (nat i' * nat j')"
      using eq e'(5) by (rule trans [OF sym])
    ultimately show False using assms(1) by simp
  qed
  with res pair show ?thesis by blast
qed

theorem findDivisor_exact_largest_x_witness:
  "exactPair 12 1 12 3 4 3 \<and> exactPair 12 1 12 3 6 2 \<and> exactPair 12 1 12 3 12 1 \<and>
   findDivisor Int32 12 1 12 3 = Some (Inr (12, 1, 1, 0))"
proof -
  have e: "exactPair 12 1 12 3 4 3" "exactPair 12 1 12 3 6 2" "exactPair 12 1 12 3 12 1"
    by (simp_all add: exactPair_def)
  from findDivisor_exact_largest_x [of 1 3 12 Int32 12 4 3] e(1)
  obtain m n where r: "findDivisor Int32 12 1 12 3 = Some (Inr (m, n, 1, 0))"
    and p: "exactPair 12 1 12 3 m n"
    and top: "\<And>i' j'. exactPair 12 1 12 3 i' j' \<Longrightarrow> i' \<le> m"
    by auto
  from top [OF e(3)] p have m: "m = 12" by (simp add: exactPair_def)
  from p have n1: "1 \<le> n" and "12 = nat m * nat n" by (simp_all add: exactPair_def)
  with m have "nat n = 1" by simp
  with n1 have "n = 1" by simp
  with r m e show ?thesis by simp
qed

section \<open>The exact search at the largest limit\<close>

lemma scanX_skip:
  assumes "i \<le> k"
    and "\<And>i'. i \<le> i' \<Longrightarrow> i' < k \<Longrightarrow>
      i' \<le> x \<and> i' \<noteq> maxInt sz \<and> u64 i' \<noteq> 0 \<and> \<not> (d mod u64 i' = 0 \<and> d div u64 i' = D)"
  shows "scanX sz d D x i = scanX sz d D x k"
  using assms
proof (induction "nat (k - i)" arbitrary: i)
  case 0
  then show ?case by simp
next
  case (Suc c)
  then have lt: "i < k" and c: "c = nat (k - (i + 1))" and le: "i + 1 \<le> k" by simp_all
  from Suc.prems(2) [of i] lt
  have here: "i \<le> x" "i \<noteq> maxInt sz" "u64 i \<noteq> 0" "\<not> (d mod u64 i = 0 \<and> d div u64 i = D)"
    by simp_all
  have "scanX sz d D x i = scanX sz d D x (incr sz i)"
    using here by (subst scanX.simps) auto
  also have "incr sz i = i + 1" using here(2) by (simp add: incr_def)
  also have "scanX sz d D x (i + 1) = scanX sz d D x k"
    by (rule Suc.hyps(1) [OF c le]) (use Suc.prems(2) in simp)
  finally show ?case .
qed

lemma u64_negative: "- (2 ^ 64) \<le> i \<Longrightarrow> i < 0 \<Longrightarrow> u64 i = nat (i + 2 ^ 64)"
proof -
  assume a: "- (2 ^ 64) \<le> i" "i < 0"
  have "i mod 2 ^ 64 = (i + 2 ^ 64) mod 2 ^ 64" by simp
  also have "\<dots> = i + 2 ^ 64" using a by (intro mod_pos_pos_trivial) simp_all
  finally show ?thesis by (simp add: u64_def)
qed

lemma scanX_wraps_64:
  "scanX Int64 (2 ^ 63) 1 (2 ^ 63 - 1) 1 = Inr (Some (- (2 ^ 63)))"
proof -
  have "scanX Int64 (2 ^ 63) 1 (2 ^ 63 - 1) 1 = scanX Int64 (2 ^ 63) 1 (2 ^ 63 - 1) (2 ^ 63 - 1)"
  proof (rule scanX_skip)
    fix i' :: int
    assume a: "1 \<le> i'" "i' < 2 ^ 63 - 1"
    then have u: "u64 i' = nat i'" by (intro u64_nat [where sz = Int64]) simp_all
    have pos: "0 < nat i'" using a by simp
    have "(2 ^ 63 :: nat) \<noteq> 1 * nat i'"
    proof
      assume "(2 ^ 63 :: nat) = 1 * nat i'"
      then have "int (nat i') = 2 ^ 63" by simp
      with a show False by simp
    qed
    then have "\<not> ((2 ^ 63 :: nat) mod nat i' = 0 \<and> 2 ^ 63 div nat i' = 1)"
      by (simp only: hit_iff [OF pos, of "2 ^ 63" 1] not_False_eq_True)
    with a u pos show "i' \<le> 2 ^ 63 - 1 \<and> i' \<noteq> maxInt Int64 \<and> u64 i' \<noteq> 0 \<and>
      \<not> ((2 ^ 63 :: nat) mod u64 i' = 0 \<and> 2 ^ 63 div u64 i' = 1)" by simp
  qed simp
  also have "\<dots> = scanX Int64 (2 ^ 63) 1 (2 ^ 63 - 1) (- (2 ^ 63))"
    by (subst scanX.simps) (simp add: u64_def incr_def)
  also have "\<dots> = Inr (Some (- (2 ^ 63)))"
    by (subst scanX.simps) (simp add: u64_def)
  finally show ?thesis .
qed

lemma scanX_wraps_32:
  "scanX Int32 (2 ^ 32) 1 (2 ^ 31 - 1) 1 = Inl DivideByZero"
proof -
  have "scanX Int32 (2 ^ 32) 1 (2 ^ 31 - 1) 1 = scanX Int32 (2 ^ 32) 1 (2 ^ 31 - 1) (2 ^ 31 - 1)"
  proof (rule scanX_skip)
    fix i' :: int
    assume a: "1 \<le> i'" "i' < 2 ^ 31 - 1"
    then have u: "u64 i' = nat i'" by (intro u64_nat [where sz = Int32]) simp_all
    have pos: "0 < nat i'" using a by simp
    have "(2 ^ 32 :: nat) \<noteq> 1 * nat i'"
    proof
      assume "(2 ^ 32 :: nat) = 1 * nat i'"
      then have "int (nat i') = 2 ^ 32" by simp
      with a show False by simp
    qed
    then have "\<not> ((2 ^ 32 :: nat) mod nat i' = 0 \<and> 2 ^ 32 div nat i' = 1)"
      by (simp only: hit_iff [OF pos, of "2 ^ 32" 1] not_False_eq_True)
    with a u pos show "i' \<le> 2 ^ 31 - 1 \<and> i' \<noteq> maxInt Int32 \<and> u64 i' \<noteq> 0 \<and>
      \<not> ((2 ^ 32 :: nat) mod u64 i' = 0 \<and> 2 ^ 32 div u64 i' = 1)" by simp
  qed simp
  also have "\<dots> = scanX Int32 (2 ^ 32) 1 (2 ^ 31 - 1) (- (2 ^ 31))"
    by (subst scanX.simps) (simp add: u64_def incr_def)
  also have "\<dots> = scanX Int32 (2 ^ 32) 1 (2 ^ 31 - 1) 0"
  proof (rule scanX_skip)
    fix i' :: int
    assume a: "- (2 ^ 31) \<le> i'" "i' < 0"
    then have u: "u64 i' = nat (i' + 2 ^ 64)" by (intro u64_negative) simp_all
    have big: "(2 ^ 32 :: nat) < nat (i' + 2 ^ 64)" using a by simp
    then have "(2 ^ 32 :: nat) div nat (i' + 2 ^ 64) = 0" by simp
    with a u big show "i' \<le> 2 ^ 31 - 1 \<and> i' \<noteq> maxInt Int32 \<and> u64 i' \<noteq> 0 \<and>
      \<not> ((2 ^ 32 :: nat) mod u64 i' = 0 \<and> 2 ^ 32 div u64 i' = 1)" by simp
  qed simp
  also have "\<dots> = Inl DivideByZero"
    by (subst scanX.simps) (simp add: u64_def)
  finally show ?thesis .
qed

text \<open>
  Without the bound on \<open>x\<close> the statement of C1 fails. At the largest \<open>int\<close> the
  counter of the inner loop wraps: with 64 bits the search returns the divisor
  \<open>-2 ^ 63\<close>, with 32 bits it divides by zero, while an exact pair in range exists
  (\<open>(2 ^ 62, 2)\<close> and \<open>(2 ^ 30, 4)\<close>).
\<close>

theorem findDivisor_largest_int:
  "exactPair (2 ^ 63) 1 (2 ^ 63 - 1) 2 (2 ^ 62) 2 \<and>
   findDivisor Int64 (2 ^ 63) 1 (2 ^ 63 - 1) 2 = Some (Inr (- (2 ^ 63), 1, 1, 0)) \<and>
   exactPair (2 ^ 32) 1 (2 ^ 31 - 1) 4 (2 ^ 30) 4 \<and>
   findDivisor Int32 (2 ^ 32) 1 (2 ^ 31 - 1) 4 = Some (Inl DivideByZero)"
proof -
  have "scanY Int64 (2 ^ 63) 1 (2 ^ 63 - 1) 2 1 = Inr (- (2 ^ 63), 1)"
    by (subst scanY.simps) (simp add: u64_def scanX_wraps_64 [simplified])
  then have a: "findDivisor Int64 (2 ^ 63) 1 (2 ^ 63 - 1) 2 = Some (Inr (- (2 ^ 63), 1, 1, 0))"
    by (simp add: findDivisor_def findDivisorExact_def)
  have "scanY Int32 (2 ^ 32) 1 (2 ^ 31 - 1) 4 1 = Inl DivideByZero"
    by (subst scanY.simps) (simp add: u64_def scanX_wraps_32 [simplified])
  then have b: "findDivisor Int32 (2 ^ 32) 1 (2 ^ 31 - 1) 4 = Some (Inl DivideByZero)"
    by (simp add: findDivisor_def findDivisorExact_def)
  have "exactPair (2 ^ 63) 1 (2 ^ 63 - 1) 2 (2 ^ 62) 2"
    and "exactPair (2 ^ 32) 1 (2 ^ 31 - 1) 4 (2 ^ 30) 4"
    by (simp_all add: exactPair_def nat_power_eq)
  with a b show ?thesis by blast
qed

section \<open>The oversampling loop\<close>

lemma oversample_miss:
  assumes "\<not> ((i * D) mod 2 ^ 64 > 100000 \<and> i > 10)"
    and "findDivisorExact sz S ((i * D) mod 2 ^ 64) x y = Inr (0, n)"
  shows "oversample sz S D x y i = oversample sz S D x y ((i + 1) mod 2 ^ 64)"
  using assms by (subst oversample.simps) (auto simp add: Let_def)

lemma oversample_hit:
  assumes "\<not> ((i * D) mod 2 ^ 64 > 100000 \<and> i > 10)"
    and "findDivisorExact sz S ((i * D) mod 2 ^ 64) x y = Inr (m, n)" and "m \<noteq> 0"
  shows "oversample sz S D x y i = Some (Inr (Some (m, n, (i * D) mod 2 ^ 64)))"
  using assms by (subst oversample.simps) (simp add: Let_def)

lemma oversample_break:
  assumes "(i * D) mod 2 ^ 64 > 100000 \<and> i > 10"
  shows "oversample sz S D x y i = Some (Inr None)"
  using assms by (subst oversample.simps) (simp add: Let_def)

lemma oversample_skip:
  assumes "\<And>k. i \<le> k \<Longrightarrow> k < i + c \<Longrightarrow>
      \<not> ((k * D) mod 2 ^ 64 > 100000 \<and> k > 10) \<and>
      findDivisorExact sz S ((k * D) mod 2 ^ 64) x y = Inr (0, 0)"
    and "i + c < 2 ^ 64"
  shows "oversample sz S D x y i = oversample sz S D x y (i + c)"
  using assms
proof (induction c arbitrary: i)
  case 0
  then show ?case by simp
next
  case (Suc c)
  have here: "\<not> ((i * D) mod 2 ^ 64 > 100000 \<and> i > 10)"
    "findDivisorExact sz S ((i * D) mod 2 ^ 64) x y = Inr (0, 0)"
    using Suc.prems(1) [of i] by simp_all
  have next_i: "(i + 1) mod 2 ^ 64 = i + 1" using Suc.prems(2) by simp
  have "oversample sz S D x y (i + 1) = oversample sz S D x y (i + 1 + c)"
  proof (rule Suc.IH)
    fix k assume "i + 1 \<le> k" "k < i + 1 + c"
    then show "\<not> ((k * D) mod 2 ^ 64 > 100000 \<and> k > 10) \<and>
      findDivisorExact sz S ((k * D) mod 2 ^ 64) x y = Inr (0, 0)"
      using Suc.prems(1) [of k] by simp
  next
    show "i + 1 + c < 2 ^ 64" using Suc.prems(2) by simp
  qed
  with oversample_miss [OF here] next_i show ?case by simp
qed

section \<open>The error-minimising search\<close>

lemma fuzzyJ_step:
  assumes "1 \<le> i" and "i \<le> maxInt sz" and "1 \<le> j" and "j \<le> maxY" and "maxY < maxInt sz"
  shows "fuzzyJ sz S D i maxY j st =
     fuzzyJ sz S D i maxY (j + 1)
       (if fst st > errAt S D i j then (errAt S D i j, (S div nat i) div nat j, i, j) else st)"
proof -
  have ui: "u64 i = nat i" using assms by (intro u64_nat [where sz = sz]) simp_all
  have uj: "u64 j = nat j" using assms by (intro u64_nat [where sz = sz]) simp_all
  have n: "nat i \<noteq> 0" "nat j \<noteq> 0" using assms by simp_all
  have s: "incr sz j = j + 1" using assms by (intro incr_below) simp
  show ?thesis using assms(4) n unfolding s [symmetric]
    by (subst fuzzyJ.simps) (simp add: ui uj Let_def errAt_def split: prod.splits)
qed

lemma fuzzyJ_done: "\<not> j \<le> maxY \<Longrightarrow> fuzzyJ sz S D i maxY j st = Inr st"
  by (subst fuzzyJ.simps) simp

lemma fuzzyJ_above:
  assumes "1 \<le> i" and "i \<le> maxInt sz" and "maxY < maxInt sz"
    and "1 \<le> j0" and "e < fst st"
    and "\<And>j. j0 \<le> j \<Longrightarrow> j \<le> maxY \<Longrightarrow> e < errAt S D i j"
  shows "\<exists>st'. fuzzyJ sz S D i maxY j0 st = Inr st' \<and> e < fst st'"
  using assms(4,5,6)
proof (induction "nat (maxY + 1 - j0)" arbitrary: j0 st)
  case 0
  then have "\<not> j0 \<le> maxY" by simp
  with "0.prems" show ?case by (simp add: fuzzyJ_done)
next
  case (Suc c)
  then have le: "j0 \<le> maxY" and c: "c = nat (maxY + 1 - (j0 + 1))" and j1: "1 \<le> j0 + 1"
    by simp_all
  let ?st = "if fst st > errAt S D i j0 then (errAt S D i j0, (S div nat i) div nat j0, i, j0) else st"
  have a: "e < fst ?st" using Suc.prems(2) Suc.prems(3) [of j0] le by simp
  have "\<exists>st'. fuzzyJ sz S D i maxY (j0 + 1) ?st = Inr st' \<and> e < fst st'"
    by (rule Suc.hyps(1) [OF c j1 a]) (use Suc.prems(3) in simp)
  then show ?case by (simp add: fuzzyJ_step [OF assms(1,2) Suc.prems(1) le assms(3)])
qed

lemma fuzzyJ_keep:
  assumes "1 \<le> i" and "i \<le> maxInt sz" and "maxY < maxInt sz" and "1 \<le> j0"
    and "\<And>j. j0 \<le> j \<Longrightarrow> j \<le> maxY \<Longrightarrow> fst st \<le> errAt S D i j"
  shows "fuzzyJ sz S D i maxY j0 st = Inr st"
  using assms(4,5)
proof (induction "nat (maxY + 1 - j0)" arbitrary: j0)
  case 0
  then have "\<not> j0 \<le> maxY" by simp
  then show ?case by (simp add: fuzzyJ_done)
next
  case (Suc c)
  then have le: "j0 \<le> maxY" and c: "c = nat (maxY + 1 - (j0 + 1))" and j1: "1 \<le> j0 + 1"
    by simp_all
  have "fuzzyJ sz S D i maxY (j0 + 1) st = Inr st"
    by (rule Suc.hyps(1) [OF c j1]) (use Suc.prems(2) in simp)
  moreover have "\<not> fst st > errAt S D i j0" using Suc.prems(2) [of j0] le by simp
  ultimately show ?case by (simp add: fuzzyJ_step [OF assms(1,2) Suc.prems(1) le assms(3)])
qed

lemma fuzzyJ_select:
  assumes "1 \<le> i" and "i \<le> maxInt sz" and "maxY < maxInt sz" and "1 \<le> j0"
    and "e < fst st" and "j0 \<le> j1" and "j1 \<le> maxY" and "errAt S D i j1 = e"
    and "\<And>j. j0 \<le> j \<Longrightarrow> j < j1 \<Longrightarrow> e < errAt S D i j"
    and "\<And>j. j1 < j \<Longrightarrow> j \<le> maxY \<Longrightarrow> e \<le> errAt S D i j"
  shows "fuzzyJ sz S D i maxY j0 st = Inr (e, (S div nat i) div nat j1, i, j1)"
  using assms(4,5,6,9)
proof (induction "nat (j1 - j0)" arbitrary: j0 st)
  case 0
  then have j0: "j0 = j1" by simp
  then have one: "1 \<le> j1" using "0.prems" by simp
  have "fuzzyJ sz S D i maxY (j1 + 1) (e, (S div nat i) div nat j1, i, j1)
      = Inr (e, (S div nat i) div nat j1, i, j1)"
    by (rule fuzzyJ_keep [OF assms(1,2,3)]) (use one assms(10) in simp_all)
  then have "fuzzyJ sz S D i maxY j1 st = Inr (e, (S div nat i) div nat j1, i, j1)"
    using "0.prems"(2) assms(8) by (simp add: fuzzyJ_step [OF assms(1,2) one assms(7,3)])
  then show ?case by (simp only: j0)
next
  case (Suc c)
  then have lt: "j0 < j1" and c: "c = nat (j1 - (j0 + 1))" and j1: "1 \<le> j0 + 1"
    and j1': "j0 + 1 \<le> j1" by simp_all
  have le: "j0 \<le> maxY" using lt assms(7) by simp
  let ?st = "if fst st > errAt S D i j0 then (errAt S D i j0, (S div nat i) div nat j0, i, j0) else st"
  have a: "e < fst ?st" using Suc.prems(2) Suc.prems(4) [of j0] lt by simp
  have "fuzzyJ sz S D i maxY (j0 + 1) ?st = Inr (e, (S div nat i) div nat j1, i, j1)"
    by (rule Suc.hyps(1) [OF c j1 a j1']) (use Suc.prems(4) in simp)
  then show ?case by (simp add: fuzzyJ_step [OF assms(1,2) Suc.prems(1) le assms(3)])
qed

lemma fuzzyI_step:
  assumes "i \<le> x" and "x < maxInt sz"
  shows "fuzzyI sz S D x y i st =
     (case fuzzyJ sz S D i (if y > i then i else y) 1 st of
        Inl f \<Rightarrow> Some (Inl f)
      | Inr st' \<Rightarrow> fuzzyI sz S D x y (i + 1) st')"
proof -
  have s: "incr sz i = i + 1" using assms by (intro incr_below) simp
  show ?thesis using assms(1) unfolding s [symmetric] by (subst fuzzyI.simps) simp
qed

lemma fuzzyI_done: "\<not> i \<le> x \<Longrightarrow> fuzzyI sz S D x y i st = Some (Inr st)"
  by (subst fuzzyI.simps) simp

lemma fuzzyI_keep:
  assumes "x < maxInt sz" and "1 \<le> i0"
    and "\<And>i j. i0 \<le> i \<Longrightarrow> i \<le> x \<Longrightarrow> 1 \<le> j \<Longrightarrow> j \<le> y \<Longrightarrow> j \<le> i
      \<Longrightarrow> fst st \<le> errAt S D i j"
  shows "fuzzyI sz S D x y i0 st = Some (Inr st)"
  using assms(2,3)
proof (induction "nat (x + 1 - i0)" arbitrary: i0)
  case 0
  then have "\<not> i0 \<le> x" by simp
  then show ?case by (simp add: fuzzyI_done)
next
  case (Suc c)
  then have le: "i0 \<le> x" and c: "c = nat (x + 1 - (i0 + 1))" and i1: "1 \<le> i0 + 1"
    by simp_all
  have one: "(1 :: int) \<le> 1" by simp
  have row: "fuzzyJ sz S D i0 (if y > i0 then i0 else y) 1 st = Inr st"
    by (rule fuzzyJ_keep [OF Suc.prems(1) _ _ one])
       (use Suc.prems(2) [of i0] le assms(1) in \<open>auto split: if_splits\<close>)
  have "fuzzyI sz S D x y (i0 + 1) st = Some (Inr st)"
    by (rule Suc.hyps(1) [OF c i1]) (use Suc.prems(2) in simp)
  with row show ?case by (simp add: fuzzyI_step [OF le assms(1)])
qed

lemma fuzzyI_select:
  assumes "x < maxInt sz" and "1 \<le> i0"
    and "e < fst st" and "i0 \<le> i1" and "i1 \<le> x" and "1 \<le> j1" and "j1 \<le> y" and "j1 \<le> i1"
    and "errAt S D i1 j1 = e"
    and "\<And>i j. i0 \<le> i \<Longrightarrow> i \<le> x \<Longrightarrow> 1 \<le> j \<Longrightarrow> j \<le> y \<Longrightarrow> j \<le> i \<Longrightarrow>
           i < i1 \<or> (i = i1 \<and> j < j1) \<Longrightarrow> e < errAt S D i j"
    and "\<And>i j. i0 \<le> i \<Longrightarrow> i \<le> x \<Longrightarrow> 1 \<le> j \<Longrightarrow> j \<le> y \<Longrightarrow> j \<le> i \<Longrightarrow>
           e \<le> errAt S D i j"
  shows "fuzzyI sz S D x y i0 st = Some (Inr (e, (S div nat i1) div nat j1, i1, j1))"
  using assms(2,3,4,10,11)
proof (induction "nat (i1 - i0)" arbitrary: i0 st)
  case 0
  then have i0: "i0 = i1" by simp
  have one: "(1 :: int) \<le> 1" by simp
  have i1pos: "1 \<le> i1" using "0.prems"(1) i0 by simp
  let ?r = "(e, (S div nat i1) div nat j1, i1, j1)"
  have row: "fuzzyJ sz S D i1 (if y > i1 then i1 else y) 1 st = Inr ?r"
    by (rule fuzzyJ_select [OF i1pos _ _ one "0.prems"(2) assms(6) _ assms(9)])
       (use assms(1,5,6,7,8) "0.prems"(4) [of i1] "0.prems"(5) [of i1] i0
         in \<open>auto split: if_splits\<close>)
  have "fuzzyI sz S D x y (i1 + 1) ?r = Some (Inr ?r)"
    by (rule fuzzyI_keep [OF assms(1)]) (use i1pos "0.prems"(5) i0 in simp_all)
  with row have "fuzzyI sz S D x y i1 st = Some (Inr ?r)"
    by (simp add: fuzzyI_step [OF assms(5,1)])
  then show ?case by (simp only: i0)
next
  case (Suc c)
  then have lt: "i0 < i1" and c: "c = nat (i1 - (i0 + 1))" and i1: "1 \<le> i0 + 1"
    and i1': "i0 + 1 \<le> i1" by simp_all
  have le: "i0 \<le> x" using lt assms(5) by simp
  have one: "(1 :: int) \<le> 1" by simp
  have "\<exists>st'. fuzzyJ sz S D i0 (if y > i0 then i0 else y) 1 st = Inr st' \<and> e < fst st'"
    by (rule fuzzyJ_above [OF Suc.prems(1) _ _ one Suc.prems(2)])
       (use Suc.prems(4) [of i0] lt le assms(1) in \<open>auto split: if_splits\<close>)
  then obtain st' where row: "fuzzyJ sz S D i0 (if y > i0 then i0 else y) 1 st = Inr st'"
    and a: "e < fst st'" by blast
  have "fuzzyI sz S D x y (i0 + 1) st' = Some (Inr (e, (S div nat i1) div nat j1, i1, j1))"
    by (rule Suc.hyps(1) [OF c i1 a i1']) (use lt Suc.prems(4,5) in simp_all)
  with row show ?case by (simp add: fuzzyI_step [OF le assms(1)])
qed

section \<open>The solver on the inputs of its test\<close>

lemma test_limits: "4095 < maxInt sz" "33 < maxInt sz" "33 \<le> maxInt sz"
  using maxInt_ge [of sz] by simp_all

lemma findDivisorExact_none:
  assumes "y \<le> x" and "x < maxInt sz"
    and "\<And>i j. 1 \<le> j \<Longrightarrow> j \<le> y \<Longrightarrow> j \<le> i \<Longrightarrow> i \<le> x \<Longrightarrow> S \<noteq> D * (nat i * nat j)"
  shows "findDivisorExact sz S D x y = Inr (0, 0)"
proof -
  have one: "(1 :: int) \<le> 1" by simp
  have ylt: "y < maxInt sz" using assms(1,2) by simp
  have "scanY sz S D x y 1 = Inr (0, 0)"
    by (rule scanY_none [OF one assms(2) ylt]) (use assms(3) in blast)
  then show ?thesis using assms(1) by (simp add: findDivisorExact_def)
qed

lemma findDivisorExact_no_divisor:
  assumes "y \<le> x" and "x < maxInt sz" and "S mod D \<noteq> 0"
  shows "findDivisorExact sz S D x y = Inr (0, 0)"
proof (rule findDivisorExact_none [OF assms(1,2)])
  fix i j :: int
  show "S \<noteq> D * (nat i * nat j)" using assms(3) by auto
qed

lemma div_product: "(S :: nat) div nat i div nat j = S div (nat i * nat j)"
  by (simp add: div_mult2_eq)

text \<open>The scaled frequencies of the first test: \<open>100 * 192000000\<close> and \<open>200 * 46886\<close>.\<close>

lemma err_small_product:
  assumes "1 \<le> p" and "p \<le> 2046"
  shows "2379 < (19200000000 div p + 2 ^ 64 - 9377200) mod (2 ^ 64 :: nat)"
proof -
  have "19200000000 div 2046 \<le> 19200000000 div p"
    using assms by (intro div_le_mono2) simp_all
  then have lo: "(9384164 :: nat) \<le> 19200000000 div p" by simp
  have "(19200000000 div p + 2 ^ 64 - 9377200) mod (2 ^ 64 :: nat)
      = (19200000000 div p - 9377200 + 2 ^ 64) mod 2 ^ 64"
    using lo by simp
  also have "\<dots> = 19200000000 div p - 9377200"
  proof -
    have "19200000000 div p - 9377200 \<le> 19200000000 div p" by simp
    also have "\<dots> \<le> 19200000000" by (rule div_le_dividend)
    also have "\<dots> < (2 ^ 64 :: nat)" by simp
    finally show ?thesis by simp
  qed
  finally show ?thesis using lo by simp
qed

lemma err_large_product:
  assumes "2048 \<le> p"
  shows "2379 < (19200000000 div p + 2 ^ 64 - 9377200) mod (2 ^ 64 :: nat)"
proof -
  have "19200000000 div p \<le> 19200000000 div 2048"
    using assms by (intro div_le_mono2) simp_all
  then have hi: "19200000000 div p \<le> (9375000 :: nat)" by simp
  then have "19200000000 div p + 2 ^ 64 - 9377200 < (2 ^ 64 :: nat)" by simp
  then have "(19200000000 div p + 2 ^ 64 - 9377200) mod (2 ^ 64 :: nat)
      = 19200000000 div p + 2 ^ 64 - 9377200" by simp
  then show ?thesis by simp
qed

lemma err_2047: "(19200000000 div 2047 + 2 ^ 64 - 9377200) mod (2 ^ 64 :: nat) = 2379"
  by simp

lemma errAt_test_ge:
  assumes "1 \<le> j" and "j \<le> i"
  shows "2379 \<le> errAt 19200000000 9377200 i j"
    and "nat i * nat j \<noteq> 2047 \<Longrightarrow> 2379 < errAt 19200000000 9377200 i j"
proof -
  let ?p = "nat i * nat j"
  have p: "1 \<le> ?p" using assms by (simp add: Suc_le_eq)
  have e: "errAt 19200000000 9377200 i j = (19200000000 div ?p + 2 ^ 64 - 9377200) mod 2 ^ 64"
    by (simp only: errAt_def div_product)
  consider "?p \<le> 2046" | "?p = 2047" | "2048 \<le> ?p" by linarith
  then show "2379 \<le> errAt 19200000000 9377200 i j"
  proof cases
    case 1
    from err_small_product [OF p 1] e show ?thesis by simp
  next
    case 2
    with err_2047 e show ?thesis by simp
  next
    case 3
    from err_large_product [OF 3] e show ?thesis by simp
  qed
  assume ne: "?p \<noteq> 2047"
  then consider "?p \<le> 2046" | "2048 \<le> ?p" by linarith
  then show "2379 < errAt 19200000000 9377200 i j"
  proof cases
    case 1
    from err_small_product [OF p 1] e show ?thesis by simp
  next
    case 2
    from err_large_product [OF 2] e show ?thesis by simp
  qed
qed

lemma product_2047_first:
  assumes "1 \<le> j" and "j \<le> 33" and "j \<le> i" and "i < 89 \<or> (i = 89 \<and> j < 23)"
  shows "nat i * nat j \<noteq> 2047"
proof
  assume "nat i * nat j = 2047"
  then have "int (nat i * nat j) = 2047" by simp
  then have eq: "i * j = 2047" using assms(1,3) by (simp add: nat_mult_distrib)
  from assms(4) show False
  proof
    assume "i = 89 \<and> j < 23"
    with eq show False by simp
  next
    assume lt: "i < 89"
    have "24 \<le> j"
    proof (rule ccontr)
      assume "\<not> 24 \<le> j"
      then have "j \<le> 23" by simp
      then have "i * j \<le> 88 * 23" using lt assms(1,3) by (intro mult_mono) simp_all
      with eq show False by simp
    qed
    with assms(2) have "j = 24 \<or> j = 25 \<or> j = 26 \<or> j = 27 \<or> j = 28 \<or> j = 29
      \<or> j = 30 \<or> j = 31 \<or> j = 32 \<or> j = 33" by presburger
    then show False using eq by (elim disjE; hypsubst; presburger)
  qed
qed

lemma fuzzy_test:
  "fuzzyI sz 19200000000 9377200 4095 33 1 (0xFFFFFFFFFFFFFFF, 0, 0, 0)
     = Some (Inr (2379, 9379579, 89, 23))"
proof -
  have e: "errAt 19200000000 9377200 89 23 = 2379" by (simp add: errAt_def)
  have one: "(1 :: int) \<le> 1" by simp
  have "fuzzyI sz 19200000000 9377200 4095 33 1 (0xFFFFFFFFFFFFFFF, 0, 0, 0)
      = Some (Inr (2379, (19200000000 div nat 89) div nat 23, 89, 23))"
  proof (rule fuzzyI_select [OF test_limits(1) one _ _ _ _ _ _ e])
    fix i j :: int
    assume "1 \<le> j" "j \<le> 33" "j \<le> i" "i < 89 \<or> i = 89 \<and> j < 23"
    then show "2379 < errAt 19200000000 9377200 i j"
      using errAt_test_ge(2) product_2047_first by blast
  next
    fix i j :: int
    assume "1 \<le> j" "j \<le> i"
    then show "2379 \<le> errAt 19200000000 9377200 i j" by (rule errAt_test_ge(1))
  qed simp_all
  then show ?thesis by simp
qed

lemma oversample_test:
  "oversample sz 192000000 46886 4095 33 2 = Some (Inr None)"
proof -
  have "oversample sz 192000000 46886 4095 33 2 = oversample sz 192000000 46886 4095 33 (2 + 9)"
  proof (rule oversample_skip)
    fix k :: nat
    assume "2 \<le> k" "k < 2 + 9"
    then consider "k = 2" | "k = 3" | "k = 4" | "k = 5" | "k = 6" | "k = 7" | "k = 8" | "k = 9"
      | "k = 10" by linarith
    then show "\<not> ((k * 46886) mod 2 ^ 64 > 100000 \<and> k > 10) \<and>
      findDivisorExact sz 192000000 ((k * 46886) mod 2 ^ 64) 4095 33 = Inr (0, 0)"
      by cases (simp_all add: findDivisorExact_no_divisor test_limits)
  qed simp
  also have "\<dots> = Some (Inr None)" by (rule oversample_break) simp
  finally show ?thesis .
qed

lemma exact_test:
  "findDivisorExact sz 192000000 46886 4095 33 = Inr (0, 0)"
  by (rule findDivisorExact_no_divisor) (simp_all add: test_limits)

text \<open>
  Claim C4, as amended: for \<open>srcHz = 192000000\<close>, \<open>desiredHz = 192000000 / 4095\<close>
  (integer division), \<open>x = 4095\<close> and \<open>y = 33\<close> the solver returns the divisors 89
  and 23, the frequency 93795 and the error 23.
\<close>

theorem findDivisor_test_inexact:
  "findDivisor sz 192000000 (192000000 div 4095) 4095 33 = Some (Inr (89, 23, 93795, 23))"
proof -
  have d: "(192000000 :: nat) div 4095 = 46886" by simp
  show ?thesis by (simp add: findDivisor_def d exact_test oversample_test fuzzy_test)
qed

text \<open>
  The error of this result is 23, not 0: the statement of C4 with the error 0 does not
  hold.
\<close>

theorem findDivisor_test_residual_not_zero:
  "findDivisor Int64 192000000 (192000000 div 4095) 4095 33 \<noteq> Some (Inr (89, 23, 93795, 0))"
proof -
  have d: "(192000000 :: nat) div 4095 = 46886" by simp
  show ?thesis by (simp add: findDivisor_def d exact_test oversample_test fuzzy_test)
qed

lemma no_divisor_1421_1499:
  assumes "1421 \<le> k" and "k < 1500"
  shows "192000000 mod k \<noteq> (0 :: nat)"
proof -
  have "list_all (\<lambda>k. 192000000 mod k \<noteq> (0 :: nat)) [1421..<1500]" by simp
  then have "\<forall>k \<in> {1421..<1500}. 192000000 mod k \<noteq> (0 :: nat)"
    by (simp only: list_all_iff set_upt)
  moreover have "k \<in> {1421..<1500}" using assms by (simp only: atLeastLessThan_iff)
  ultimately show ?thesis by blast
qed

lemma exact_test_low:
  assumes "1 \<le> k" and "k < 1500"
  shows "findDivisorExact sz 192000000 k 4095 33 = Inr (0, 0)"
proof (rule findDivisorExact_none)
  fix i j :: int
  assume ij: "1 \<le> j" "j \<le> 33" "j \<le> i" "i \<le> 4095"
  show "192000000 \<noteq> k * (nat i * nat j)"
  proof
    assume eq: "192000000 = k * (nat i * nat j)"
    have p: "nat i * nat j \<le> 4095 * 33" using ij by (intro mult_le_mono) simp_all
    have "1421 \<le> k"
    proof (rule ccontr)
      assume "\<not> 1421 \<le> k"
      then have "k \<le> 1420" by simp
      then have "k * (nat i * nat j) \<le> 1420 * (4095 * 33)" using p by (rule mult_le_mono)
      with eq show False by simp
    qed
    then have "192000000 mod k \<noteq> 0" using assms(2) by (rule no_divisor_1421_1499)
    with eq show False by (metis mod_mult_self1_is_0)
  qed
qed (simp_all add: test_limits)

lemma exact_test_1500:
  "findDivisorExact sz 192000000 1500 4095 33 = Inr (4000, 32)"
proof -
  have one: "(1 :: int) \<le> 1" by simp
  note lim = test_limits [where sz = sz]
  have "scanY sz 192000000 1500 4095 33 1 \<noteq> Inr (0, 0)"
    by (rule scanY_complete [OF one lim(1,2), where j = 32 and i = 4000]) simp_all
  with scanY_cases [OF one lim(1,2), where S = 192000000 and D = 1500]
  obtain m n where mn: "scanY sz 192000000 1500 4095 33 1 = Inr (m, n)"
    and r: "1 \<le> n" "n \<le> 33" "n \<le> m" "m \<le> 4095"
    and eq: "192000000 = 1500 * (nat m * nat n)"
    by blast
  from eq have "nat m * nat n = 128000" by simp
  then have "int (nat m * nat n) = 128000" by simp
  then have prod: "m * n = 128000" using r by (simp add: nat_mult_distrib)
  have "32 \<le> n"
  proof (rule ccontr)
    assume "\<not> 32 \<le> n"
    then have "n \<le> 31" by simp
    then have "m * n \<le> 4095 * 31" using r by (intro mult_mono) simp_all
    with prod show False by simp
  qed
  with r(2) have "n = 32 \<or> n = 33" by presburger
  then have "n = 32 \<and> m = 4000" using prod by (elim disjE; hypsubst; presburger)
  with mn show ?thesis by (simp add: findDivisorExact_def)
qed

lemma oversample_test_1:
  "oversample sz 192000000 1 4095 33 2 = Some (Inr (Some (4000, 32, 1500)))"
proof -
  have "oversample sz 192000000 1 4095 33 2 = oversample sz 192000000 1 4095 33 (2 + 1498)"
  proof (rule oversample_skip)
    fix k :: nat
    assume "2 \<le> k" "k < 2 + 1498"
    then show "\<not> ((k * 1) mod 2 ^ 64 > 100000 \<and> k > 10) \<and>
      findDivisorExact sz 192000000 ((k * 1) mod 2 ^ 64) 4095 33 = Inr (0, 0)"
      using exact_test_low [of k sz] by simp
  qed simp
  also have "\<dots> = Some (Inr (Some (4000, 32, ((2 + 1498) * 1) mod 2 ^ 64)))"
    by (rule oversample_hit) (simp_all add: exact_test_1500)
  finally show ?thesis by simp
qed

text \<open>
  Claim C5: for \<open>srcHz = 192000000\<close>, \<open>desiredHz = 1\<close>, \<open>x = 4095\<close> and \<open>y = 33\<close> there is
  no exact pair at 1 Hz, the oversampling loop finds one, and the solver returns the
  frequency 1500 with the error 0.
\<close>

theorem findDivisor_test_oversampled:
  "findDivisorExact sz 192000000 1 4095 33 = Inr (0, 0) \<and>
   oversample sz 192000000 1 4095 33 2 = Some (Inr (Some (4000, 32, 1500))) \<and>
   findDivisor sz 192000000 1 4095 33 = Some (Inr (4000, 32, 1500, 0))"
proof -
  have ex: "findDivisorExact sz 192000000 1 4095 33 = Inr (0, 0)"
    by (rule exact_test_low) simp_all
  show ?thesis unfolding findDivisor_def ex oversample_test_1 by simp
qed

section \<open>Rasterising a bit stream\<close>

lemma addr_inj: "addr s k = addr s k' \<longleftrightarrow> k = k'"
  by (cases s) simp

lemma part_here: "lo < hi \<Longrightarrow> P lo \<Longrightarrow> part s P lo hi m (addr s lo) = m"
  by (auto simp: part_def)

lemma part_step:
  assumes "a \<noteq> addr s lo \<or> \<not> P lo"
  shows "part s P lo hi m a = part s P (Suc lo) hi m a"
proof -
  have "(\<exists>k \<in> {lo..<hi}. a = addr s k \<and> P k) \<longleftrightarrow> (\<exists>k \<in> {Suc lo..<hi}. a = addr s k \<and> P k)"
  proof
    assume "\<exists>k \<in> {lo..<hi}. a = addr s k \<and> P k"
    then obtain k where k: "lo \<le> k" "k < hi" "a = addr s k" "P k" by auto
    with assms have "k \<noteq> lo" by auto
    with k show "\<exists>k \<in> {Suc lo..<hi}. a = addr s k \<and> P k" by auto
  next
    assume "\<exists>k \<in> {Suc lo..<hi}. a = addr s k \<and> P k"
    then show "\<exists>k \<in> {lo..<hi}. a = addr s k \<and> P k" by auto
  qed
  then show ?thesis by (simp add: part_def)
qed

lemma part_empty: "hi \<le> lo \<Longrightarrow> part s P lo hi m a = 0"
  by (simp add: part_def)

lemma part_join:
  assumes "lo \<le> mid" and "mid \<le> hi"
  shows "part s P lo mid m a OR part s P mid hi m a = part s P lo hi m a"
proof -
  have "(\<exists>k \<in> {lo..<hi}. a = addr s k \<and> P k) \<longleftrightarrow>
      (\<exists>k \<in> {lo..<mid}. a = addr s k \<and> P k) \<or> (\<exists>k \<in> {mid..<hi}. a = addr s k \<and> P k)"
  proof -
    have "{lo..<hi} = {lo..<mid} \<union> {mid..<hi}" using assms by auto
    then show ?thesis by blast
  qed
  then show ?thesis unfolding part_def by auto
qed

lemma part_at:
  assumes "k < hi"
  shows "part s P 0 hi m (addr s k) = (if P k then m else 0)"
  using assms by (auto simp: part_def addr_inj)

lemma part_cases: "part s P lo hi m a = m \<or> part s P lo hi m a = 0"
  by (simp add: part_def)

lemma part_separate:
  assumes "separate s t" and "k < slen s" and "hi \<le> slen t"
  shows "part t P lo hi m (addr s k) = 0"
proof -
  have "addr s k \<noteq> addr t k'" if "k' < hi" for k'
    using assms that by (cases s; cases t) auto
  then show ?thesis by (auto simp: part_def)
qed

lemma test_bit_iff: "(byte AND push_bit j 1 \<noteq> 0) \<longleftrightarrow> bit (byte :: 8 word) j"
  by (simp add: push_bit_of_1 and_exp_eq_0_iff_not_bit)

lemma or_mask_part:
  "(x OR m) OR part s P lo hi m a OR y = x OR m OR (y :: 32 word)"
  using part_cases [of s P lo hi m a] by (auto simp: bit_eq_iff bit_or_iff)

text \<open>
  The loops of \<open>Bits.raster32\<close> never fail on buffers that are long enough, and what
  they add to each cell of the memory is independent of the order of the writes,
  whether or not the two buffers share cells.
\<close>

lemma bitsLoopJ_spec:
  assumes "8 * i + 8 \<le> slen clear" and "slen set' = slen clear"
    and "\<And>j'. j' < 8 \<Longrightarrow> bit byte j' = P (8 * i + j')"
    and "j \<le> 8"
  shows "\<exists>mem'. bitsLoopJ byte i j clear set' sm cm mem = (Ok, mem') \<and>
     (\<forall>a. mem' a = mem a OR part set' P (8 * i + j) (8 * i + 8) sm a
                          OR part clear (\<lambda>k. \<not> P k) (8 * i + j) (8 * i + 8) cm a)"
  using assms(4)
proof (induction "8 - j" arbitrary: j mem)
  case 0
  then have j: "j = 8" by simp
  show ?case by (subst bitsLoopJ.simps) (simp add: j part_empty)
next
  case (Suc c)
  then have lt: "j < 8" and c: "c = 8 - (j + 1)" and j1: "j + 1 \<le> 8" by simp_all
  let ?k = "8 * i + j"
  have in_set: "?k < slen set'" and in_clear: "?k < slen clear"
    using lt assms(1,2) by simp_all
  have bitk: "bit byte j = P ?k" using assms(3) [OF lt] .
  show ?case
  proof (cases "P ?k")
    case True
    then have t: "byte AND push_bit j 1 \<noteq> 0" using test_bit_iff [of byte j] bitk by blast
    let ?m1 = "mem(addr set' ?k := mem (addr set' ?k) OR sm)"
    have eq: "bitsLoopJ byte i j clear set' sm cm mem = bitsLoopJ byte i (j + 1) clear set' sm cm ?m1"
      using lt t in_set by (subst bitsLoopJ.simps) simp
    from Suc.hyps(1) [OF c j1, of ?m1]
    obtain mem' where r: "bitsLoopJ byte i (j + 1) clear set' sm cm ?m1 = (Ok, mem')"
      and m: "\<And>a. mem' a = ?m1 a OR part set' P (8 * i + (j + 1)) (8 * i + 8) sm a
                          OR part clear (\<lambda>k. \<not> P k) (8 * i + (j + 1)) (8 * i + 8) cm a"
      by blast
    have "mem' a = mem a OR part set' P ?k (8 * i + 8) sm a
                          OR part clear (\<lambda>k. \<not> P k) ?k (8 * i + 8) cm a" for a
    proof -
      have cl: "part clear (\<lambda>k. \<not> P k) ?k (8 * i + 8) cm a
          = part clear (\<lambda>k. \<not> P k) (Suc ?k) (8 * i + 8) cm a"
        by (rule part_step) (use True in simp)
      show ?thesis
      proof (cases "a = addr set' ?k")
        case here: True
        have "part set' P ?k (8 * i + 8) sm a = sm"
          unfolding here by (rule part_here) (use lt True in simp_all)
        then show ?thesis using m [of a] cl here by (simp add: or_mask_part)
      next
        case False
        have "part set' P ?k (8 * i + 8) sm a = part set' P (Suc ?k) (8 * i + 8) sm a"
          by (rule part_step) (use False in simp)
        then show ?thesis using m [of a] cl False by simp
      qed
    qed
    with r eq show ?thesis by simp
  next
    case False
    then have t: "\<not> byte AND push_bit j 1 \<noteq> 0" using test_bit_iff [of byte j] bitk by blast
    let ?m1 = "mem(addr clear ?k := mem (addr clear ?k) OR cm)"
    have eq: "bitsLoopJ byte i j clear set' sm cm mem = bitsLoopJ byte i (j + 1) clear set' sm cm ?m1"
      using lt t in_clear by (subst bitsLoopJ.simps) simp
    from Suc.hyps(1) [OF c j1, of ?m1]
    obtain mem' where r: "bitsLoopJ byte i (j + 1) clear set' sm cm ?m1 = (Ok, mem')"
      and m: "\<And>a. mem' a = ?m1 a OR part set' P (8 * i + (j + 1)) (8 * i + 8) sm a
                          OR part clear (\<lambda>k. \<not> P k) (8 * i + (j + 1)) (8 * i + 8) cm a"
      by blast
    have "mem' a = mem a OR part set' P ?k (8 * i + 8) sm a
                          OR part clear (\<lambda>k. \<not> P k) ?k (8 * i + 8) cm a" for a
    proof -
      have st: "part set' P ?k (8 * i + 8) sm a = part set' P (Suc ?k) (8 * i + 8) sm a"
        by (rule part_step) (use False in simp)
      show ?thesis
      proof (cases "a = addr clear ?k")
        case here: True
        have "part clear (\<lambda>k. \<not> P k) ?k (8 * i + 8) cm a = cm"
          unfolding here by (rule part_here) (use lt False in simp_all)
        moreover have "mem' a = (mem a OR cm) OR part set' P (Suc ?k) (8 * i + 8) sm a
            OR part clear (\<lambda>k. \<not> P k) (Suc ?k) (8 * i + 8) cm a"
          using m [of a] here by simp
        moreover have "(mem a OR cm) OR part set' P (Suc ?k) (8 * i + 8) sm a
            OR part clear (\<lambda>k. \<not> P k) (Suc ?k) (8 * i + 8) cm a
            = mem a OR part set' P (Suc ?k) (8 * i + 8) sm a OR cm"
          using part_cases [of clear "\<lambda>k. \<not> P k" "Suc ?k" "8 * i + 8" cm a]
          by (auto simp: bit_eq_iff bit_or_iff)
        ultimately show ?thesis using st by simp
      next
        case False
        have "part clear (\<lambda>k. \<not> P k) ?k (8 * i + 8) cm a
            = part clear (\<lambda>k. \<not> P k) (Suc ?k) (8 * i + 8) cm a"
          by (rule part_step) (use False in simp)
        then show ?thesis using m [of a] st False by simp
      qed
    qed
    with r eq show ?thesis by simp
  qed
qed

lemma streamBit_byte: "j < 8 \<Longrightarrow> bit (bs ! i) j = streamBit bs (8 * i + j)"
  by (simp add: streamBit_def)

lemma bitsLoopI_spec:
  assumes "m \<le> length bs" and "8 * m \<le> slen clear" and "slen set' = slen clear"
    and "i \<le> m"
  shows "\<exists>mem'. bitsLoopI bs m i clear set' sm cm mem = (Ok, mem') \<and>
     (\<forall>a. mem' a = mem a OR part set' (streamBit bs) (8 * i) (8 * m) sm a
                          OR part clear (\<lambda>k. \<not> streamBit bs k) (8 * i) (8 * m) cm a)"
  using assms(4)
proof (induction "m - i" arbitrary: i mem)
  case 0
  then have i: "i = m" by simp
  show ?case by (subst bitsLoopI.simps) (simp add: i part_empty)
next
  case (Suc c)
  then have lt: "i < m" and c: "c = m - (i + 1)" and i1: "i + 1 \<le> m" by simp_all
  have ib: "i < length bs" and room: "8 * i + 8 \<le> slen clear"
    using lt assms(1,2) by simp_all
  from bitsLoopJ_spec [OF room assms(3), of "bs ! i" "streamBit bs" 0 sm cm mem]
  obtain mem1 where r1: "bitsLoopJ (bs ! i) i 0 clear set' sm cm mem = (Ok, mem1)"
    and m1: "\<And>a. mem1 a = mem a OR part set' (streamBit bs) (8 * i) (8 * i + 8) sm a
                          OR part clear (\<lambda>k. \<not> streamBit bs k) (8 * i) (8 * i + 8) cm a"
    by (auto simp: streamBit_byte)
  have eq: "bitsLoopI bs m i clear set' sm cm mem = bitsLoopI bs m (i + 1) clear set' sm cm mem1"
    using lt ib r1 by (subst bitsLoopI.simps) simp
  from Suc.hyps(1) [OF c i1, of mem1]
  obtain mem' where r: "bitsLoopI bs m (i + 1) clear set' sm cm mem1 = (Ok, mem')"
    and m: "\<And>a. mem' a = mem1 a OR part set' (streamBit bs) (8 * (i + 1)) (8 * m) sm a
                          OR part clear (\<lambda>k. \<not> streamBit bs k) (8 * (i + 1)) (8 * m) cm a"
    by blast
  have "mem' a = mem a OR part set' (streamBit bs) (8 * i) (8 * m) sm a
                          OR part clear (\<lambda>k. \<not> streamBit bs k) (8 * i) (8 * m) cm a" for a
  proof -
    have lo: "8 * i \<le> 8 * i + 8" and hi: "8 * i + 8 \<le> 8 * m" using i1 by simp_all
    have eight: "8 * (i + 1) = 8 * i + 8" by simp
    note js = part_join [OF lo hi, of set' "streamBit bs" sm a, symmetric]
    note jc = part_join [OF lo hi, of clear "\<lambda>k. \<not> streamBit bs k" cm a, symmetric]
    show ?thesis unfolding m [of a] m1 [of a] eight js jc
      by (simp add: bit_eq_iff bit_or_iff) blast
  qed
  with r eq show ?case by simp
qed

lemma wrap64_id: "- (2 ^ 63) \<le> v \<Longrightarrow> v < 2 ^ 63 \<Longrightarrow> wrap64 v = v"
  by (simp add: wrap64_def)

lemma Raster32_Bits_spec:
  assumes "sm \<noteq> 0" and "cm \<noteq> 0" and "slen clear \<noteq> 0" and "slen set' = slen clear"
    and "\<not> Duration (Bits bs res) > wrap64 (res * int (slen clear))"
  shows "\<exists>mem'. Raster32 (Bits bs res) res clear set' sm cm mem = (Ok, mem') \<and>
     (\<forall>a. mem' a = mem a
          OR part set' (streamBit bs) 0 (8 * min (slen clear div 8) (length bs)) sm a
          OR part clear (\<lambda>k. \<not> streamBit bs k) 0 (8 * min (slen clear div 8) (length bs)) cm a)"
proof -
  let ?m = "min (slen clear div 8) (length bs)"
  have eq: "Raster32 (Bits bs res) res clear set' sm cm mem
      = bitsLoopI bs ?m 0 clear set' sm cm mem"
    using assms by (simp add: Raster32_def Bits_raster32_def Let_def min_def)
  have m1: "?m \<le> length bs" and m2: "8 * ?m \<le> slen clear" by simp_all
  from bitsLoopI_spec [OF m1 m2 assms(4), of 0 sm cm mem] eq show ?thesis by simp
qed

lemma Raster32_Bits_Ok:
  assumes "Raster32 (Bits bs res) resolution clear set' sm cm mem = (Ok, mem')"
  shows "sm \<noteq> 0 \<and> cm \<noteq> 0 \<and> slen clear \<noteq> 0 \<and> slen set' = slen clear \<and> resolution = res \<and>
     \<not> Duration (Bits bs res) > wrap64 (res * int (slen clear))"
  using assms by (auto simp: Raster32_def Bits_raster32_def split: if_splits)

text \<open>
  A bit stream that is accepted changes no cell but those of the first
  \<open>8 * len(b.Bits)\<close> slots of the two buffers.
\<close>

lemma Raster32_Bits_frame:
  assumes "Raster32 (Bits bs res) resolution clear set' sm cm mem = (Ok, mem')"
    and "\<And>k. k < 8 * length bs \<Longrightarrow> a \<noteq> addr set' k \<and> a \<noteq> addr clear k"
  shows "mem' a = mem a"
proof -
  note ok = Raster32_Bits_Ok [OF assms(1)]
  from ok have r: "resolution = res" by blast
  from ok have a: "sm \<noteq> 0" "cm \<noteq> 0" "slen clear \<noteq> 0" "slen set' = slen clear"
    "\<not> Duration (Bits bs res) > wrap64 (res * int (slen clear))" by blast+
  let ?n = "8 * min (slen clear div 8) (length bs)"
  from Raster32_Bits_spec [OF a, of mem] assms(1) [unfolded r]
  have m: "mem' a = mem a OR part set' (streamBit bs) 0 ?n sm a
      OR part clear (\<lambda>k. \<not> streamBit bs k) 0 ?n cm a"
    by auto
  have "part set' (streamBit bs) 0 ?n sm a = 0" "part clear (\<lambda>k. \<not> streamBit bs k) 0 ?n cm a = 0"
    using assms(2) by (auto simp: part_def)
  with m show ?thesis by simp
qed

section \<open>The claims on bit streams\<close>

text \<open>
  Claim C2, as amended: for a non-empty bit stream whose resolution is not negative
  and whose product with the buffer length does not overflow, non-zero masks, and
  buffers of equal length at least \<open>8 * len(b.Bits)\<close> that are zero-initialised and
  either share no storage or are used with masks that share no bit, rasterising at
  the stream's own resolution succeeds; afterwards slot \<open>i < 8 * len(b.Bits)\<close> of the
  set buffer has a bit of the set mask exactly when bit \<open>i\<close> of the stream is 1, and
  slot \<open>i\<close> of the clear buffer has a bit of the clear mask exactly when it is 0.
\<close>

theorem Raster32_Bits_readback:
  assumes "bs \<noteq> []" and "setMask \<noteq> 0" and "clearMask \<noteq> 0"
    and "slen set' = slen clear" and "8 * length bs \<le> slen clear"
    and "\<forall>k < slen clear. mem (addr clear k) = 0 \<and> mem (addr set' k) = 0"
    and "0 \<le> res" and "res * int (slen clear) < 2 ^ 63"
    and "separate clear set' \<or> setMask AND clearMask = 0"
  shows "\<exists>mem'. Raster32 (Bits bs res) res clear set' setMask clearMask mem = (Ok, mem') \<and>
     (\<forall>i < 8 * length bs.
        (mem' (addr set' i) AND setMask \<noteq> 0 \<longleftrightarrow> streamBit bs i) \<and>
        (mem' (addr clear i) AND clearMask \<noteq> 0 \<longleftrightarrow> \<not> streamBit bs i))"
proof -
  let ?n = "8 * length bs"
  let ?P = "streamBit bs" and ?Q = "\<lambda>k. \<not> streamBit bs k"
  have "0 < length bs" using assms(1) by simp
  then have ne: "slen clear \<noteq> 0" using assms(5) by linarith
  have le: "res * int (length bs) \<le> res * int (slen clear)"
    using assms(5,7) by (intro mult_left_mono) simp_all
  have nn: "0 \<le> res * int (length bs)" using assms(7) by simp
  have "wrap64 (res * int (length bs)) = res * int (length bs)"
    using nn le assms(8) by (intro wrap64_id) simp_all
  moreover have "wrap64 (res * int (slen clear)) = res * int (slen clear)"
    using nn le assms(8) by (intro wrap64_id) simp_all
  ultimately have chk: "\<not> Duration (Bits bs res) > wrap64 (res * int (slen clear))"
    using le by simp
  have mn: "8 * min (slen clear div 8) (length bs) = ?n" using assms(5) by auto
  from Raster32_Bits_spec [OF assms(2,3) ne assms(4) chk, of mem]
  obtain mem' where r: "Raster32 (Bits bs res) res clear set' setMask clearMask mem = (Ok, mem')"
    and m: "\<And>a. mem' a = mem a OR part set' ?P 0 ?n setMask a OR part clear ?Q 0 ?n clearMask a"
    unfolding mn by blast
  have "(mem' (addr set' i) AND setMask \<noteq> 0 \<longleftrightarrow> streamBit bs i) \<and>
        (mem' (addr clear i) AND clearMask \<noteq> 0 \<longleftrightarrow> \<not> streamBit bs i)" if i: "i < ?n" for i
  proof -
    from i assms(4,5,6) have z: "mem (addr clear i) = 0" "mem (addr set' i) = 0"
      and il: "i < slen clear" "i < slen set'" by simp_all
    have s: "mem' (addr set' i) = (if ?P i then setMask else 0)
        OR part clear ?Q 0 ?n clearMask (addr set' i)"
      using m [of "addr set' i"] z part_at [OF i, of set' ?P setMask] by simp
    have c: "mem' (addr clear i) = part set' ?P 0 ?n setMask (addr clear i)
        OR (if ?Q i then clearMask else 0)"
      using m [of "addr clear i"] z part_at [OF i, of clear ?Q clearMask] by simp
    from assms(9) show ?thesis
    proof
      assume sep: "separate clear set'"
      then have sep': "separate set' clear" by (cases clear; cases set') auto
      have "part clear ?Q 0 ?n clearMask (addr set' i) = 0"
        by (rule part_separate [OF sep' il(2) assms(5)])
      moreover have "part set' ?P 0 ?n setMask (addr clear i) = 0"
        by (rule part_separate [OF sep il(1)]) (use assms(4,5) in simp)
      ultimately show ?thesis using s c assms(2,3) by simp
    next
      assume dis: "setMask AND clearMask = 0"
      then have dis': "clearMask AND setMask = 0" by (simp add: and.commute)
      have a: "part clear ?Q 0 ?n clearMask (addr set' i) AND setMask = 0"
        using part_cases [of clear ?Q 0 ?n clearMask "addr set' i"] dis' by auto
      have b: "part set' ?P 0 ?n setMask (addr clear i) AND clearMask = 0"
        using part_cases [of set' ?P 0 ?n setMask "addr clear i"] dis by auto
      have "mem' (addr set' i) AND setMask = (if ?P i then setMask else 0)"
        unfolding s using a by (simp add: bit.conj_disj_distrib2)
      moreover have "mem' (addr clear i) AND clearMask = (if ?Q i then clearMask else 0)"
        unfolding c using b by (simp add: bit.conj_disj_distrib2)
      ultimately show ?thesis using assms(2,3) by simp
    qed
  qed
  with r show ?thesis by blast
qed

theorem Raster32_Bits_readback_witness:
  "(\<exists>mem'. Raster32 (Bits [5] 1) 1 (Slice 0 9) (Slice 9 9) 2 4 (\<lambda>a. 0) = (Ok, mem') \<and>
     (\<forall>i < 8 * length [5 :: 8 word].
        (mem' (addr (Slice 9 9) i) AND 2 \<noteq> 0 \<longleftrightarrow> streamBit [5] i) \<and>
        (mem' (addr (Slice 0 9) i) AND 4 \<noteq> 0 \<longleftrightarrow> \<not> streamBit [5] i))) \<and>
   (\<exists>mem'. Raster32 (Bits [5] 1) 1 (Slice 0 9) (Slice 0 9) 2 4 (\<lambda>a. 0) = (Ok, mem') \<and>
     (\<forall>i < 8 * length [5 :: 8 word].
        (mem' (addr (Slice 0 9) i) AND 2 \<noteq> 0 \<longleftrightarrow> streamBit [5] i) \<and>
        (mem' (addr (Slice 0 9) i) AND 4 \<noteq> 0 \<longleftrightarrow> \<not> streamBit [5] i)))"
  using Raster32_Bits_readback [of "[5]" 2 4 "Slice 9 9" "Slice 0 9" "\<lambda>a. 0" 1]
    Raster32_Bits_readback [of "[5]" 2 4 "Slice 0 9" "Slice 0 9" "\<lambda>a. 0" 1]
  by simp

text \<open>
  Without the conditions on the resolution and on the buffers the statement of C2
  fails. A stream with the resolution \<open>-1\<close>, and one with the resolution \<open>2 ^ 62\<close>,
  whose product with the buffer length 8 wraps around to 0, are rejected by the
  duration check. When one buffer is passed as both \<open>clear\<close> and \<open>set\<close> with the mask
  1 for both, the byte 0 leaves the mask in slot 0, which reads back as a 1 bit.
\<close>

theorem Raster32_Bits_negative_res:
  "Raster32 (Bits [1] (- 1)) (- 1) (Slice 0 8) (Slice 8 8) 1 1 (\<lambda>a. 0)
     = (Error ''buffer is too short'', \<lambda>a. 0) \<and>
   Raster32 (Bits [1] (2 ^ 62)) (2 ^ 62) (Slice 0 8) (Slice 8 8) 1 1 (\<lambda>a. 0)
     = (Error ''buffer is too short'', \<lambda>a. 0) \<and>
   fst (Raster32 (Bits [0] 1) 1 (Slice 0 8) (Slice 0 8) 1 1 (\<lambda>a. 0)) = Ok \<and>
   snd (Raster32 (Bits [0] 1) 1 (Slice 0 8) (Slice 0 8) 1 1 (\<lambda>a. 0)) (addr (Slice 0 8) 0) AND 1 \<noteq> 0 \<and>
   \<not> streamBit [0] 0"
  by (simp add: Raster32_def Bits_raster32_def wrap64_def bitsLoopI.simps bitsLoopJ.simps
      streamBit_def)

section \<open>The claims on streams\<close>

text \<open>
  In the evaluations below the memory is all zero, the clear buffer is the slice at
  address 0 and the set buffer the slice after it, so the two share no cell.
\<close>

text \<open>
  Claim C3: the duration of a bit stream is its resolution times its number of bits,
  \<open>8 * len(b.Bits)\<close>. The source multiplies the resolution by \<open>len(b.Bits)\<close>, the number
  of bytes: one byte at a resolution of 1ns has a duration of 1ns, where the claim
  gives 8ns.
\<close>

theorem Duration_Bits_counts_bytes:
  "Duration (Bits [0] 1) = 1 \<and>
   Resolution (Bits [0] 1) * (8 * int (length [0 :: 8 word])) = 8"
  by (simp add: wrap64_def)

text \<open>
  Claim C6: every slot of an edge list receives the set mask when the level during the
  slot is High and the clear mask otherwise, and a leading edge of duration zero makes
  the first slots Low. The source never reads the edges: for the list \<open>[0, 1]\<close>, Low
  during its only slot, the slot receives the set mask and no clear mask.
\<close>

theorem Raster32_Edges_ignores_levels:
  "Raster32 (Edges [0, 1] 1) 1 (Slice 0 1) (Slice 1 1) 1 1 (\<lambda>a. 0) = (Ok, (\<lambda>a. 0)(1 := 1)) \<and>
   cells ((\<lambda>a. 0)(1 := 1)) (Slice 0 1) = [0] \<and> cells ((\<lambda>a. 0)(1 := 1)) (Slice 1 1) = [1]"
  by (simp add: Raster32_def Edges_raster32_def edgesLoop.simps wrap64_def cells_def
      upt_conv_Cons)

text \<open>
  Claim C7: an edge list accepts a target resolution at or below its own and rejects a
  greater one. The source compares the other way round: the resolution 1 is rejected
  as "too coarse" by a list of resolution 2, and the resolution 2 is accepted by a list
  of resolution 1.
\<close>

theorem Raster32_Edges_resolution_check:
  "Raster32 (Edges [1] 2) 1 (Slice 0 1) (Slice 1 1) 1 1 (\<lambda>a. 0)
     = (Error ''resolution is too coarse'', \<lambda>a. 0) \<and>
   Raster32 (Edges [1] 1) 2 (Slice 0 1) (Slice 1 1) 1 1 (\<lambda>a. 0) = (Ok, (\<lambda>a. 0)(1 := 1))"
  by (simp add: Raster32_def Edges_raster32_def edgesLoop.simps wrap64_def)

text \<open>
  Claim C8: the slots beyond those a source covers keep the value they had on entry.
  This holds for a bit stream (\<open>Raster32_Bits_frame\<close>). For an edge list the source
  writes the set mask into every slot of the buffer: a list of duration 1 at
  resolution 1 covers one slot, and the second slot of the set buffer changes too.
\<close>

theorem Raster32_Edges_writes_trailing_slots:
  "Duration (Edges [1] 1) = 1 \<and>
   Raster32 (Edges [1] 1) 1 (Slice 0 2) (Slice 2 2) 1 1 (\<lambda>a. 0)
     = (Ok, (\<lambda>a. 0)(2 := 1, 3 := 1)) \<and>
   cells ((\<lambda>a. 0)(2 := 1, 3 := 1)) (Slice 0 2) = [0, 0] \<and>
   cells ((\<lambda>a. 0)(2 := 1, 3 := 1)) (Slice 2 2) = [1, 1]"
  by (simp add: Raster32_def Edges_raster32_def edgesLoop.simps wrap64_def cells_def
      upt_conv_Cons)

text \<open>
  Claim C10: for every program, whatever its parts, resolution and loop count, and for
  masks and buffers that pass the checks of \<open>Raster32\<close>, the call returns an error and
  both buffers are as they were.
\<close>

theorem Raster32_Program_unimplemented:
  assumes "setMask \<noteq> 0" and "clearMask \<noteq> 0" and "slen clear \<noteq> 0" and "slen set' \<noteq> 0"
    and "slen clear = slen set'"
  shows "Raster32 (Program ps res loops) resolution clear set' setMask clearMask mem
     = (Error ''implement me'', mem)"
  using assms by (simp add: Raster32_def Program_raster32_def)

theorem Raster32_Program_unimplemented_witness:
  "Raster32 (Program [Bits [1] 1, Edges [1] 1] 1 3) 1 (Slice 0 2) (Slice 2 2) 1 1
       ((\<lambda>a. 0)(1 := 7, 2 := 5))
     = (Error ''implement me'', (\<lambda>a. 0)(1 := 7, 2 := 5))"
  using Raster32_Program_unimplemented
    [of 1 1 "Slice 0 2" "Slice 2 2" "[Bits [1] 1, Edges [1] 1]" 1 3 1 "(\<lambda>a. 0)(1 := 7, 2 := 5)"]
  by simp

section \<open>The NRZ encoder\<close>

lemma expandNRZ_group:
  assumes "k < 8"
  shows "bit (expandNRZ b) (3 * k + 2) \<and> (bit (expandNRZ b) (3 * k + 1) \<longleftrightarrow> bit b k) \<and>
     \<not> bit (expandNRZ b) (3 * k)"
proof -
  from assms consider "k = 0" | "k = 1" | "k = 2" | "k = 3" | "k = 4" | "k = 5" | "k = 6" | "k = 7"
    by linarith
  then show ?thesis
    by cases (simp_all add: expandNRZ_def bit_simps del: push_bit_Suc push_bit_of_Suc_0)
qed

lemma expandNRZ_24_bits:
  assumes "24 \<le> n"
  shows "\<not> bit (expandNRZ b) n"
proof
  assume b: "bit (expandNRZ b) n"
  then have "n < 32" using bit_imp_le_length [OF b] by simp
  with assms consider "n = 24" | "n = 25" | "n = 26" | "n = 27" | "n = 28" | "n = 29" | "n = 30"
    | "n = 31" by linarith
  then show False using b
    by cases (simp_all add: expandNRZ_def bit_simps del: push_bit_Suc push_bit_of_Suc_0)
qed

text \<open>
  Claim C9: \<open>expandNRZ\<close> yields a 24-bit pattern in which input bit \<open>k\<close> occupies the
  output bits \<open>3k + 2\<close>, \<open>3k + 1\<close>, \<open>3k\<close> with the values 1, bit \<open>k\<close> of the input, 0;
  \<open>0xFF\<close> is encoded as \<open>0xDB6DB6\<close> and \<open>0x00\<close> as \<open>0x924924\<close>.
\<close>

theorem expandNRZ_pattern:
  "(\<forall>k < 8. bit (expandNRZ b) (3 * k + 2) \<and> (bit (expandNRZ b) (3 * k + 1) \<longleftrightarrow> bit b k) \<and>
              \<not> bit (expandNRZ b) (3 * k)) \<and>
   (\<forall>n \<ge> 24. \<not> bit (expandNRZ b) n) \<and>
   expandNRZ 0xFF = 0xDB6DB6 \<and> expandNRZ 0x00 = 0x924924"
proof -
  have "expandNRZ 0xFF = 0xDB6DB6" and "expandNRZ 0x00 = 0x924924"
    by (simp_all add: expandNRZ_def)
  with expandNRZ_group [of _ b] expandNRZ_24_bits [of _ b] show ?thesis by blast
qed

theorem expandNRZ_pattern_witness:
  "bit (expandNRZ 0xA5) 23 \<and> bit (expandNRZ 0xA5) 22 \<and> \<not> bit (expandNRZ 0xA5) 21 \<and>
   bit (expandNRZ 0xA5) 20 \<and> \<not> bit (expandNRZ 0xA5) 19 \<and> \<not> bit (expandNRZ 0xA5) 18 \<and>
   \<not> bit (expandNRZ 0xA5) 24"
proof -
  note p = expandNRZ_pattern [of "0xA5"]
  from p have a: "\<forall>k < 8. bit (expandNRZ 0xA5) (3 * k + 2) \<and>
      (bit (expandNRZ 0xA5) (3 * k + 1) \<longleftrightarrow> bit (0xA5 :: 8 word) k) \<and>
      \<not> bit (expandNRZ 0xA5) (3 * k)"
    and b: "\<forall>n \<ge> 24. \<not> bit (expandNRZ 0xA5) n" by blast+
  from a [rule_format, of 7] a [rule_format, of 6] b [rule_format, of 24]
  show ?thesis by simp
qed

end
